theory Spec2Isabelle
  imports Main "HOL-Library.Word"
begin

unbundle bit_operations_syntax

section \<open>Errors\<close>

text \<open>
  The source reports a violated precondition through \<^verbatim>\<open>BUSTUB_ASSERT\<close> or \<^verbatim>\<open>assert\<close>,
  which abort the process. The specification names these outcomes \<open>InvalidArgument\<close>
  (a frame id outside the range) and \<open>Invariant\<close> (an internal precondition). A use of
  an iterator that the C++ standard leaves undefined (a dangling iterator, an iterator
  erased from a list it is not part of, the first element of an empty list, an index
  past the end of a vector) is the outcome \<open>UndefinedBehaviour\<close>.
\<close>

datatype error = InvalidArgument | Invariant | UndefinedBehaviour

section \<open>The LRU-K replacer (src/buffer/lru\_k\_replacer.cpp)\<close>

subsection \<open>Data\<close>

text \<open>
  \<^verbatim>\<open>frame_id_t\<close> is a signed 32-bit integer; the model keeps it as an \<open>int\<close>, and the
  range assertion of every operation bounds it. The fields of type \<^verbatim>\<open>size_t\<close>
  are natural numbers: an increment is \<open>+ 1\<close> (a wrap-around needs \<open>2 ^ 64\<close>
  increments and is outside the model), a decrement wraps at zero as the machine does
  (\<open>size_dec\<close>). The fields carry the source's names without the trailing underscore.
\<close>

type_synonym frame_id_t = int

record Entry =
  key :: frame_id_t
  cnt :: nat
  evictable :: bool
  is_in_history_list :: bool

text \<open>
  \<open>histroy_list\<close> and \<open>cache_list\<close> are the two \<^verbatim>\<open>std::list<Entry>\<close>, the head of the
  HOL list being \<^verbatim>\<open>begin()\<close>. \<open>map_keys\<close> is the key set of \<^verbatim>\<open>map_\<close>, which maps a
  frame id to the iterator of its node; an iterator is the list that holds the node
  and the node's position there (\<open>iter\<close>), found by looking for the key.
\<close>

record LRUKReplacer =
  histroy_list :: "Entry list"
  cache_list :: "Entry list"
  map_keys :: "frame_id_t set"
  curr_size :: nat
  replacer_size :: nat
  k_threshold :: nat

datatype iter = InHistory nat | InCache nat

definition size_dec :: "nat \<Rightarrow> nat" where
  "size_dec n = (if n = 0 then 2 ^ 64 - 1 else n - 1)"

text \<open>
  Modelled from the spec: the header that declares \<^verbatim>\<open>Entry\<close> is not part of the
  sources; a record is created with \<open>access_count = 0\<close> before its first access is
  counted, \<open>evictable = false\<close> and \<open>in_history = true\<close>.
\<close>

definition new_entry :: "frame_id_t \<Rightarrow> Entry" where
  "new_entry f = \<lparr>key = f, cnt = 0, evictable = False, is_in_history_list = True\<rparr>"

text \<open>
  The constructor stores \<open>num_frames\<close> and \<open>k\<close>. Modelled from the spec: the
  initialiser of \<^verbatim>\<open>curr_size_\<close> is in the header; a fresh replacer tracks no record and
  has \<open>curr_size = 0\<close>.
\<close>

definition new_replacer :: "nat \<Rightarrow> nat \<Rightarrow> LRUKReplacer" where
  "new_replacer num_frames k =
     \<lparr>histroy_list = [], cache_list = [], map_keys = {}, curr_size = 0,
      replacer_size = num_frames, k_threshold = k\<rparr>"

text \<open>\<^verbatim>\<open>static_cast<frame_id_t>(replacer_size_)\<close>: the low 32 bits, read as signed.\<close>

definition frame_limit :: "nat \<Rightarrow> int" where
  "frame_limit n = sint (word_of_nat n :: 32 word)"

definition frame_valid :: "LRUKReplacer \<Rightarrow> frame_id_t \<Rightarrow> bool" where
  "frame_valid s f = (0 \<le> f \<and> f < frame_limit (replacer_size s))"

subsection \<open>List primitives\<close>

fun index_of :: "frame_id_t \<Rightarrow> Entry list \<Rightarrow> nat option" where
  "index_of f [] = None"
| "index_of f (e # es) =
     (if key e = f then Some 0 else map_option Suc (index_of f es))"

definition erase_at :: "nat \<Rightarrow> 'a list \<Rightarrow> 'a list" where
  "erase_at i xs = take i xs @ drop (Suc i) xs"

text \<open>
  The iterator stored in \<^verbatim>\<open>map_\<close> for a tracked key. A tracked key whose node is in
  neither list would be a dangling iterator.
\<close>

definition locate :: "LRUKReplacer \<Rightarrow> frame_id_t \<Rightarrow> iter option" where
  "locate s f =
     (case index_of f (histroy_list s) of
        Some i \<Rightarrow> Some (InHistory i)
      | None \<Rightarrow> map_option InCache (index_of f (cache_list s)))"

fun deref :: "LRUKReplacer \<Rightarrow> iter \<Rightarrow> Entry" where
  "deref s (InHistory i) = histroy_list s ! i"
| "deref s (InCache i) = cache_list s ! i"

fun assign :: "LRUKReplacer \<Rightarrow> iter \<Rightarrow> Entry \<Rightarrow> LRUKReplacer" where
  "assign s (InHistory i) e = s\<lparr>histroy_list := (histroy_list s)[i := e]\<rparr>"
| "assign s (InCache i) e = s\<lparr>cache_list := (cache_list s)[i := e]\<rparr>"

text \<open>
  \<^verbatim>\<open>op_list.erase(entry)\<close>, the list being chosen by the node's \<open>is_in_history_list\<close>
  flag: erasing an iterator from the list that does not hold it is undefined.
\<close>

fun erase_from :: "bool \<Rightarrow> LRUKReplacer \<Rightarrow> iter \<Rightarrow> error + LRUKReplacer" where
  "erase_from True s (InHistory i) = Inr (s\<lparr>histroy_list := erase_at i (histroy_list s)\<rparr>)"
| "erase_from False s (InCache i) = Inr (s\<lparr>cache_list := erase_at i (cache_list s)\<rparr>)"
| "erase_from flag s it = Inl UndefinedBehaviour"

subsection \<open>Size and IsFull\<close>

definition Size :: "LRUKReplacer \<Rightarrow> nat" where
  "Size s = curr_size s"

definition IsFull :: "LRUKReplacer \<Rightarrow> bool" where
  "IsFull s = (replacer_size s \<le> curr_size s)"

subsection \<open>Evict\<close>

text \<open>
  The loop \<^verbatim>\<open>for (it = --l.end(); it != l.end(); it--)\<close> visits the nodes from the last
  to the first: \<open>scan_back l n\<close> has still the first \<open>n\<close> nodes to visit, and
  decrementing \<^verbatim>\<open>begin()\<close> gives \<^verbatim>\<open>end()\<close> (the list is circular through its sentinel
  node), which ends the loop. The frame id written through the pointer \<^verbatim>\<open>frame_id\<close> is
  the first component of the result of \<open>Evict\<close>, \<open>None\<close> when the source returns
  \<^verbatim>\<open>false\<close>; the model has no null pointer for the first assertion to reject.
\<close>

fun scan_back :: "Entry list \<Rightarrow> nat \<Rightarrow> nat option" where
  "scan_back l 0 = None"
| "scan_back l (Suc i) = (if evictable (l ! i) then Some i else scan_back l i)"

definition Evict :: "LRUKReplacer \<Rightarrow> frame_id_t option \<times> LRUKReplacer" where
  "Evict s =
     (case scan_back (histroy_list s) (length (histroy_list s)) of
        Some i \<Rightarrow>
          (let f = key (histroy_list s ! i) in
           (Some f, s\<lparr>histroy_list := erase_at i (histroy_list s),
                       map_keys := map_keys s - {f},
                       curr_size := size_dec (curr_size s)\<rparr>))
      | None \<Rightarrow>
          (case scan_back (cache_list s) (length (cache_list s)) of
             Some i \<Rightarrow>
               (let f = key (cache_list s ! i) in
                (Some f, s\<lparr>cache_list := erase_at i (cache_list s),
                            map_keys := map_keys s - {f},
                            curr_size := size_dec (curr_size s)\<rparr>))
           | None \<Rightarrow> (None, s)))"

subsection \<open>RecordAccess\<close>

text \<open>
  \<open>count_access\<close> is the part of \<^verbatim>\<open>RecordAccess\<close> after the node has been found or
  created (lines 64 to 78): count the access, and move the node to the front of the
  cache list once the count is not below \<open>k\<close>.
\<close>

definition count_access :: "LRUKReplacer \<Rightarrow> frame_id_t \<Rightarrow> error + LRUKReplacer" where
  "count_access s f =
     (case locate s f of
        None \<Rightarrow> Inl UndefinedBehaviour
      | Some it \<Rightarrow>
          (let e = (deref s it)\<lparr>cnt := cnt (deref s it) + 1\<rparr>;
               s1 = assign s it e
           in if cnt e < k_threshold s1 then Inr s1
              else
                (let new_entry = e\<lparr>is_in_history_list := False\<rparr>
                 in case erase_from (is_in_history_list e) s1 it of
                      Inl err \<Rightarrow> Inl err
                    | Inr s2 \<Rightarrow>
                        Inr (s2\<lparr>cache_list := new_entry # cache_list s2,
                                map_keys := insert f (map_keys s2 - {f})\<rparr>))))"

definition RecordAccess :: "LRUKReplacer \<Rightarrow> frame_id_t \<Rightarrow> error + LRUKReplacer" where
  "RecordAccess s f =
     (if \<not> frame_valid s f then Inl InvalidArgument
      else if f \<notin> map_keys s then
        (if IsFull s then Inr s
         else count_access
                (s\<lparr>histroy_list := new_entry f # histroy_list s,
                   map_keys := insert f (map_keys s)\<rparr>) f)
      else count_access s f)"

subsection \<open>SetEvictable and Remove\<close>

definition SetEvictable :: "LRUKReplacer \<Rightarrow> frame_id_t \<Rightarrow> bool \<Rightarrow> error + LRUKReplacer" where
  "SetEvictable s f set_evictable =
     (if \<not> frame_valid s f then Inl InvalidArgument
      else if f \<notin> map_keys s then Inr s
      else
        (case locate s f of
           None \<Rightarrow> Inl UndefinedBehaviour
         | Some it \<Rightarrow>
             (let e = deref s it;
                  n = (if evictable e \<and> \<not> set_evictable then size_dec (curr_size s)
                       else if \<not> evictable e \<and> set_evictable then curr_size s + 1
                       else curr_size s)
              in Inr ((assign s it (e\<lparr>evictable := set_evictable\<rparr>))\<lparr>curr_size := n\<rparr>))))"

definition Remove :: "LRUKReplacer \<Rightarrow> frame_id_t \<Rightarrow> error + LRUKReplacer" where
  "Remove s f =
     (if \<not> frame_valid s f then Inl InvalidArgument
      else if f \<notin> map_keys s then Inr s
      else
        (case locate s f of
           None \<Rightarrow> Inl UndefinedBehaviour
         | Some it \<Rightarrow>
             (let e = deref s it
              in if \<not> evictable e then Inl Invariant
                 else
                   (case erase_from (is_in_history_list e) s it of
                      Inl err \<Rightarrow> Inl err
                    | Inr s1 \<Rightarrow>
                        Inr (s1\<lparr>map_keys := map_keys s1 - {f},
                                curr_size := size_dec (curr_size s1)\<rparr>)))))"

subsection \<open>Sequences of operations\<close>

text \<open>
  A client calls the four operations in some order on a fresh instance. A failed
  assertion aborts the process, so a sequence has a state after it only when every
  call returned.
\<close>

datatype op = RecordAccessOp frame_id_t | SetEvictableOp frame_id_t bool
  | RemoveOp frame_id_t | EvictOp

fun step :: "LRUKReplacer \<Rightarrow> op \<Rightarrow> error + LRUKReplacer" where
  "step s (RecordAccessOp f) = RecordAccess s f"
| "step s (SetEvictableOp f b) = SetEvictable s f b"
| "step s (RemoveOp f) = Remove s f"
| "step s EvictOp = Inr (snd (Evict s))"

fun replay :: "LRUKReplacer \<Rightarrow> op list \<Rightarrow> error + LRUKReplacer" where
  "replay s [] = Inr s"
| "replay s (x # xs) = (case step s x of Inl e \<Rightarrow> Inl e | Inr s' \<Rightarrow> replay s' xs)"

definition tracked :: "LRUKReplacer \<Rightarrow> Entry list" where
  "tracked s = histroy_list s @ cache_list s"


subsection \<open>Invariant of the replacer\<close>

text \<open>
  What every state after a sequence of calls satisfies: one node per tracked key, the
  key set of \<^verbatim>\<open>map_\<close> is the set of keys of the nodes, a node of the history list is
  flagged so and has fewer than \<open>k\<close> accesses, a node of the cache list is not flagged
  and has at least \<open>k\<close>, every key passes the range assertion, and \<open>curr_size\<close> counts
  the evictable nodes.
\<close>

definition rinv :: "LRUKReplacer \<Rightarrow> bool" where
  "rinv s \<longleftrightarrow>
     distinct (map key (tracked s)) \<and>
     map_keys s = key ` set (tracked s) \<and>
     (\<forall>e \<in> set (histroy_list s). is_in_history_list e \<and> cnt e < k_threshold s) \<and>
     (\<forall>e \<in> set (cache_list s). \<not> is_in_history_list e \<and> k_threshold s \<le> cnt e) \<and>
     (\<forall>e \<in> set (tracked s). 0 \<le> key e \<and> key e < frame_limit (replacer_size s)) \<and>
     curr_size s = length (filter evictable (tracked s))"


subsection \<open>Access times\<close>

text \<open>
  To say which record is the oldest, a sequence of calls is replayed with a clock that
  ticks at every call. \<open>first_access g f\<close> is the time of the call of \<^verbatim>\<open>RecordAccess\<close>
  that created the record of \<open>f\<close> (the key was not tracked before the call and is
  tracked after it), \<open>last_access g f\<close> the time of its latest recorded access. The
  stamps are read off the calls and the tracked keys, and do not influence the replacer.
\<close>

record ghost =
  clock :: nat
  first_access :: "frame_id_t \<Rightarrow> nat"
  last_access :: "frame_id_t \<Rightarrow> nat"

definition ghost0 :: ghost where
  "ghost0 = \<lparr>clock = 0, first_access = (\<lambda>f. 0), last_access = (\<lambda>f. 0)\<rparr>"

definition stamp :: "LRUKReplacer \<Rightarrow> op \<Rightarrow> LRUKReplacer \<Rightarrow> ghost \<Rightarrow> ghost" where
  "stamp s x s' g =
     (case x of
        RecordAccessOp f \<Rightarrow>
          g\<lparr>clock := clock g + 1,
            first_access :=
              (if f \<notin> map_keys s \<and> f \<in> map_keys s' then (first_access g)(f := clock g)
               else first_access g),
            last_access :=
              (if f \<in> map_keys s' then (last_access g)(f := clock g) else last_access g)\<rparr>
      | _ \<Rightarrow> g\<lparr>clock := clock g + 1\<rparr>)"

fun replay_stamped :: "LRUKReplacer \<Rightarrow> ghost \<Rightarrow> op list \<Rightarrow> error + LRUKReplacer \<times> ghost" where
  "replay_stamped s g [] = Inr (s, g)"
| "replay_stamped s g (x # xs) =
     (case step s x of Inl e \<Rightarrow> Inl e | Inr s' \<Rightarrow> replay_stamped s' (stamp s x s' g) xs)"

definition ginv :: "LRUKReplacer \<Rightarrow> ghost \<Rightarrow> bool" where
  "ginv s g \<longleftrightarrow>
     (\<forall>f \<in> map_keys s. first_access g f < clock g \<and> last_access g f < clock g) \<and>
     sorted_wrt (\<lambda>a b. first_access g b < first_access g a) (map key (histroy_list s)) \<and>
     sorted_wrt (\<lambda>a b. last_access g b < last_access g a) (map key (cache_list s))"

definition gord :: "frame_id_t set \<Rightarrow> frame_id_t list \<Rightarrow> frame_id_t list \<Rightarrow> ghost \<Rightarrow> bool" where
  "gord K H C g \<longleftrightarrow>
     (\<forall>f \<in> K. first_access g f < clock g \<and> last_access g f < clock g) \<and>
     sorted_wrt (\<lambda>a b. first_access g b < first_access g a) H \<and>
     sorted_wrt (\<lambda>a b. last_access g b < last_access g a) C"


subsection \<open>The latch\<close>

text \<open>
  \<^verbatim>\<open>Evict\<close> and \<^verbatim>\<open>SetEvictable\<close> take \<^verbatim>\<open>std::lock_guard<std::mutex> lk(latch_)\<close> before they
  read or write a data member and hold it until they return; \<^verbatim>\<open>Size\<close> (line 114) is
  \<^verbatim>\<open>return curr_size_;\<close> and takes nothing. To state which calls touch the members under
  the latch, the replacer is paired with the state of the mutex and with a flag that
  records a member access made while the mutex was not held. This layer says what one
  call does on its own; it does not interleave calls. (\<^verbatim>\<open>RecordAccess\<close> and \<^verbatim>\<open>Remove\<close>
  evaluate their range assertion, which reads the immutable \<^verbatim>\<open>replacer_size_\<close>, before
  they take the latch; they are left out of the layer.)
\<close>

record Latched =
  latch_held :: bool
  unguarded :: bool
  inner :: LRUKReplacer

definition lock_guard :: "Latched \<Rightarrow> Latched" where
  "lock_guard l = l\<lparr>latch_held := True\<rparr>"

definition unlock :: "Latched \<Rightarrow> Latched" where
  "unlock l = l\<lparr>latch_held := False\<rparr>"

definition member_access :: "Latched \<Rightarrow> Latched" where
  "member_access l = l\<lparr>unguarded := unguarded l \<or> \<not> latch_held l\<rparr>"

definition Size_call :: "Latched \<Rightarrow> nat \<times> Latched" where
  "Size_call l = (let l1 = member_access l in (Size (inner l1), l1))"

definition Evict_call :: "Latched \<Rightarrow> frame_id_t option \<times> Latched" where
  "Evict_call l =
     (let l1 = member_access (lock_guard l)
      in case Evict (inner l1) of (r, s) \<Rightarrow> (r, unlock (l1\<lparr>inner := s\<rparr>)))"

definition SetEvictable_call :: "Latched \<Rightarrow> frame_id_t \<Rightarrow> bool \<Rightarrow> error + Latched" where
  "SetEvictable_call l f set_evictable =
     (let l1 = member_access (lock_guard l)
      in case SetEvictable (inner l1) f set_evictable of
           Inl e \<Rightarrow> Inl e
         | Inr s \<Rightarrow> Inr (unlock (l1\<lparr>inner := s\<rparr>)))"

text \<open>A fresh replacer whose mutex is free and whose members have not been touched.\<close>

definition new_latched :: "nat \<Rightarrow> nat \<Rightarrow> Latched" where
  "new_latched num_frames k =
     \<lparr>latch_held = False, unguarded = False, inner = new_replacer num_frames k\<rparr>"

section \<open>The extendible hash table (src/container/hash/extendible\_hash\_table.cpp)\<close>

subsection \<open>Data\<close>

text \<open>
  A bucket is shared by the directory slots that reference it
  (\<^verbatim>\<open>std::shared_ptr<Bucket>\<close>), and an update through one slot is seen through the
  others. The model has an explicit store: \<open>heap\<close> holds the buckets in the order of
  their allocation, the address of a bucket is its position there, and a directory slot
  holds an address. \<open>size_b\<close> and \<open>list_b\<close> are the fields \<^verbatim>\<open>size_\<close> and \<^verbatim>\<open>list_\<close> of a
  bucket, the head of the HOL list being \<^verbatim>\<open>begin()\<close>. Depths and counts are natural
  numbers. The hash function \<^verbatim>\<open>std::hash<K>\<close> belongs to the standard library; it is the
  parameter \<open>h\<close> of every operation that hashes, and its values (\<^verbatim>\<open>size_t\<close>) are
  natural numbers.
\<close>

record ('k, 'v) Bucket =
  size_b :: nat
  depth :: nat
  list_b :: "('k \<times> 'v) list"

record ('k, 'v) ExtendibleHashTable =
  global_depth :: nat
  bucket_size :: nat
  num_buckets :: nat
  dir :: "nat list"
  heap :: "('k, 'v) Bucket list"

definition new_bucket :: "nat \<Rightarrow> nat \<Rightarrow> ('k, 'v) Bucket" where
  "new_bucket array_size d = \<lparr>size_b = array_size, depth = d, list_b = []\<rparr>"

text \<open>
  The constructor has no failing path; its result is a sum only so that a rejected
  argument could be told from an accepted one. Modelled from the spec: the default
  depth of the bucket that the constructor allocates is in the header; the initial
  state has one bucket with \<open>local_depth = 0\<close>.
\<close>

definition new_table :: "nat \<Rightarrow> error + ('k, 'v) ExtendibleHashTable" where
  "new_table bucket_size0 =
     Inr \<lparr>global_depth = 0, bucket_size = bucket_size0, num_buckets = 1,
          dir = [0], heap = [new_bucket bucket_size0 0]\<rparr>"

subsection \<open>Bits\<close>

text \<open>
  The source computes its masks in \<^verbatim>\<open>int\<close>, 32 bits wide, and applies them to a \<^verbatim>\<open>size_t\<close>.
  \<open>shl_int k\<close> is \<^verbatim>\<open>1 << k\<close>. For \<open>k\<close> from 32 on, ISO C++ leaves the shift undefined; the
  shift instruction of x86, which the compilers emit for it, takes the count modulo 32,
  and this is the value here. The subtraction \<^verbatim>\<open>(1 << k) - 1\<close> wraps round in the 32 bits
  (it does from \<open>INT_MIN\<close>, for a count of 31). \<open>to_size_t\<close> is the conversion of an \<^verbatim>\<open>int\<close>
  operand of \<^verbatim>\<open>&\<close> to \<^verbatim>\<open>size_t\<close>, which extends the sign to 64 bits, and \<open>to_int\<close> the
  conversion of the \<^verbatim>\<open>size_t\<close> result to the return type \<^verbatim>\<open>int\<close>, which keeps the low 32
  bits. A value of type \<^verbatim>\<open>size_t\<close> (a hash, an index of the directory) is a natural number.
\<close>

definition shl_int :: "nat \<Rightarrow> 32 word" where
  "shl_int k = push_bit (k mod 32) 1"

definition to_size_t :: "32 word \<Rightarrow> nat" where
  "to_size_t m = unat (scast m :: 64 word)"

definition to_int :: "nat \<Rightarrow> 32 word" where
  "to_int n = word_of_nat n"

definition GetLowKBit :: "nat \<Rightarrow> nat \<Rightarrow> 32 word" where
  "GetLowKBit k n = to_int (n AND to_size_t (shl_int k - 1))"

definition TestKBit :: "nat \<Rightarrow> nat \<Rightarrow> 32 word" where
  "TestKBit k n = to_int (n AND to_size_t (shl_int k))"

definition IndexOf :: "('k \<Rightarrow> nat) \<Rightarrow> ('k, 'v) ExtendibleHashTable \<Rightarrow> 'k \<Rightarrow> nat" where
  "IndexOf h t k =
     (let mask = shl_int (global_depth t) - 1 in h k AND to_size_t mask)"

subsection \<open>Buckets\<close>

text \<open>\<^verbatim>\<open>FindKeyPos\<close>: the position of the first pair with the key, \<open>None\<close> for \<^verbatim>\<open>end()\<close>.\<close>

fun FindKeyPos :: "'k \<Rightarrow> ('k \<times> 'v) list \<Rightarrow> nat option" where
  "FindKeyPos k [] = None"
| "FindKeyPos k (p # ps) = (if fst p = k then Some 0 else map_option Suc (FindKeyPos k ps))"

text \<open>
  Modelled from the spec: \<^verbatim>\<open>IsFull\<close> is defined in the header, which is not part of the
  sources; a bucket has free capacity while it holds fewer than \<open>bucket_capacity\<close> pairs.
\<close>

definition Bucket_IsFull :: "('k, 'v) Bucket \<Rightarrow> bool" where
  "Bucket_IsFull b = (size_b b \<le> length (list_b b))"

definition Bucket_Find :: "'k \<Rightarrow> ('k, 'v) Bucket \<Rightarrow> 'v option" where
  "Bucket_Find k b =
     (case FindKeyPos k (list_b b) of None \<Rightarrow> None | Some i \<Rightarrow> Some (snd (list_b b ! i)))"

definition Bucket_Remove :: "'k \<Rightarrow> ('k, 'v) Bucket \<Rightarrow> bool \<times> ('k, 'v) Bucket" where
  "Bucket_Remove k b =
     (case FindKeyPos k (list_b b) of
        None \<Rightarrow> (False, b)
      | Some i \<Rightarrow> (True, b\<lparr>list_b := erase_at i (list_b b)\<rparr>))"

definition Bucket_Insert :: "'k \<Rightarrow> 'v \<Rightarrow> ('k, 'v) Bucket \<Rightarrow> bool \<times> ('k, 'v) Bucket" where
  "Bucket_Insert k v b =
     (case FindKeyPos k (list_b b) of
        None \<Rightarrow>
          (if Bucket_IsFull b then (False, b)
           else (True, b\<lparr>list_b := (k, v) # list_b b\<rparr>))
      | Some i \<Rightarrow> (True, b\<lparr>list_b := (list_b b)[i := (fst (list_b b ! i), v)]\<rparr>))"

subsection \<open>Find and Remove\<close>

text \<open>
  \<^verbatim>\<open>dir_[bucket_pos]\<close> followed by the dereference of the pointer: reading past the end
  of the directory is undefined, and so is an address that is not in the store.
\<close>

definition slot_bucket :: "('k, 'v) ExtendibleHashTable \<Rightarrow> nat \<Rightarrow> error + nat" where
  "slot_bucket t pos =
     (if pos < length (dir t) \<and> dir t ! pos < length (heap t) then Inr (dir t ! pos)
      else Inl UndefinedBehaviour)"

definition Find :: "('k \<Rightarrow> nat) \<Rightarrow> ('k, 'v) ExtendibleHashTable \<Rightarrow> 'k \<Rightarrow> error + 'v option" where
  "Find h t k =
     (case slot_bucket t (IndexOf h t k) of
        Inl e \<Rightarrow> Inl e
      | Inr a \<Rightarrow> Inr (Bucket_Find k (heap t ! a)))"

definition Remove_key ::
  "('k \<Rightarrow> nat) \<Rightarrow> ('k, 'v) ExtendibleHashTable \<Rightarrow> 'k \<Rightarrow> error + bool \<times> ('k, 'v) ExtendibleHashTable" where
  "Remove_key h t k =
     (case slot_bucket t (IndexOf h t k) of
        Inl e \<Rightarrow> Inl e
      | Inr a \<Rightarrow>
          (case Bucket_Remove k (heap t ! a) of
             (r, b) \<Rightarrow> Inr (r, t\<lparr>heap := (heap t)[a := b]\<rparr>)))"

subsection \<open>RedistributeBucket\<close>

text \<open>
  The second loop of \<^verbatim>\<open>RedistributeBucket\<close>: the pairs of the split bucket are visited in
  order; a pair whose hash has bit \<open>d\<close> set is inserted into the new bucket \<open>nb\<close> (after
  the assertion that it is not full) and erased, the others stay. The result is the
  pairs that stay and the new bucket.
\<close>

fun move_items ::
  "('k \<Rightarrow> nat) \<Rightarrow> nat \<Rightarrow> ('k \<times> 'v) list \<Rightarrow> ('k, 'v) Bucket \<Rightarrow>
     error + ('k \<times> 'v) list \<times> ('k, 'v) Bucket" where
  "move_items h d [] nb = Inr ([], nb)"
| "move_items h d (p # ps) nb =
     (if TestKBit d (h (fst p)) \<noteq> 0 then
        (if Bucket_IsFull nb then Inl Invariant
         else move_items h d ps (snd (Bucket_Insert (fst p) (snd p) nb)))
      else
        (case move_items h d ps nb of
           Inl e \<Rightarrow> Inl e
         | Inr (kept, nb') \<Rightarrow> Inr (p # kept, nb')))"

text \<open>
  The first loop: every slot whose index has bit \<open>d\<close> set and whose low \<open>d\<close> bits are
  \<open>lowbit\<close> is pointed to the new bucket, at address \<open>a'\<close>.
\<close>

definition redirect :: "nat \<Rightarrow> 32 word \<Rightarrow> nat \<Rightarrow> nat list \<Rightarrow> nat list" where
  "redirect d lowbit a' slots =
     map (\<lambda>(i, a). if TestKBit d i \<noteq> 0 \<and> GetLowKBit d i = lowbit then a' else a)
       (enumerate 0 slots)"

text \<open>
  \<open>a\<close> is the address held by the shared pointer \<^verbatim>\<open>bucket\<close>. The new bucket is allocated
  at the end of the store. \<^verbatim>\<open>cur_items.begin()->first\<close> is undefined when the bucket is
  empty.
\<close>

definition RedistributeBucket ::
  "('k \<Rightarrow> nat) \<Rightarrow> ('k, 'v) ExtendibleHashTable \<Rightarrow> nat \<Rightarrow> error + ('k, 'v) ExtendibleHashTable" where
  "RedistributeBucket h t a =
     (let bucket = heap t ! a;
          d = depth bucket;
          a' = length (heap t);
          cur_items = list_b bucket
      in case cur_items of
           [] \<Rightarrow> Inl UndefinedBehaviour
         | p # ps \<Rightarrow>
             (let lowbit = GetLowKBit d (h (fst p))
              in case move_items h d cur_items (new_bucket (bucket_size t) (d + 1)) of
                   Inl e \<Rightarrow> Inl e
                 | Inr (kept, nb) \<Rightarrow>
                     Inr (t\<lparr>num_buckets := num_buckets t + 1,
                            dir := redirect d lowbit a' (dir t),
                            heap := (heap t)[a := bucket\<lparr>depth := d + 1, list_b := kept\<rparr>] @ [nb]\<rparr>)))"

subsection \<open>Insert\<close>

text \<open>
  One iteration of the loop \<^verbatim>\<open>while (true)\<close> of \<^verbatim>\<open>Insert\<close>: it either returns (\<open>Inl\<close>, with
  the table or the error of a failed assertion) or goes round again (\<open>Inr\<close>, with the
  table after the doubling and the split).
\<close>

definition double_dir :: "('k, 'v) ExtendibleHashTable \<Rightarrow> ('k, 'v) ExtendibleHashTable" where
  "double_dir t = t\<lparr>dir := dir t @ dir t, global_depth := global_depth t + 1\<rparr>"

definition Insert_body ::
  "('k \<Rightarrow> nat) \<Rightarrow> 'k \<Rightarrow> 'v \<Rightarrow> ('k, 'v) ExtendibleHashTable \<Rightarrow>
     (error + ('k, 'v) ExtendibleHashTable) + ('k, 'v) ExtendibleHashTable" where
  "Insert_body h k v t =
     (case slot_bucket t (IndexOf h t k) of
        Inl e \<Rightarrow> Inl (Inl e)
      | Inr cur_bucket \<Rightarrow>
          (case Bucket_Insert k v (heap t ! cur_bucket) of
             (True, b) \<Rightarrow> Inl (Inr (t\<lparr>heap := (heap t)[cur_bucket := b]\<rparr>))
           | (False, b) \<Rightarrow>
               (let cur_depth = depth (heap t ! cur_bucket)
                in if global_depth t < cur_depth then Inl (Inl Invariant)
                   else
                     (let t1 = (if global_depth t = cur_depth then double_dir t else t)
                      in if cur_depth < global_depth t1 then
                           (case RedistributeBucket h t1 cur_bucket of
                              Inl e \<Rightarrow> Inl (Inl e)
                            | Inr t2 \<Rightarrow> Inr t2)
                         else Inr t1))))"

text \<open>
  The loop itself. It need not end: \<open>None\<close> is the loop that runs for ever.
\<close>

partial_function (option) Insert ::
  "('k \<Rightarrow> nat) \<Rightarrow> 'k \<Rightarrow> 'v \<Rightarrow> ('k, 'v) ExtendibleHashTable \<Rightarrow>
     (error + ('k, 'v) ExtendibleHashTable) option" where
  "Insert h k v t =
     (case Insert_body h k v t of
        Inl r \<Rightarrow> Some r
      | Inr t' \<Rightarrow> Insert h k v t')"

declare Insert.simps [code]

subsection \<open>Sequences of operations on a table\<close>

datatype ('k, 'v) table_op = InsertOp 'k 'v | RemoveOp_key 'k | FindOp 'k

fun table_step ::
  "('k \<Rightarrow> nat) \<Rightarrow> ('k, 'v) ExtendibleHashTable \<Rightarrow> ('k, 'v) table_op \<Rightarrow>
     (error + ('k, 'v) ExtendibleHashTable) option" where
  "table_step h t (InsertOp k v) = Insert h k v t"
| "table_step h t (RemoveOp_key k) =
     (case Remove_key h t k of Inl e \<Rightarrow> Some (Inl e) | Inr (r, t') \<Rightarrow> Some (Inr t'))"
| "table_step h t (FindOp k) =
     (case Find h t k of Inl e \<Rightarrow> Some (Inl e) | Inr r \<Rightarrow> Some (Inr t))"

fun table_replay ::
  "('k \<Rightarrow> nat) \<Rightarrow> ('k, 'v) ExtendibleHashTable \<Rightarrow> ('k, 'v) table_op list \<Rightarrow>
     (error + ('k, 'v) ExtendibleHashTable) option" where
  "table_replay h t [] = Some (Inr t)"
| "table_replay h t (x # xs) =
     (case table_step h t x of
        None \<Rightarrow> None
      | Some (Inl e) \<Rightarrow> Some (Inl e)
      | Some (Inr t') \<Rightarrow> table_replay h t' xs)"

text \<open>The table after a sequence of operations on a fresh table of the given capacity.\<close>

definition table_after ::
  "('k \<Rightarrow> nat) \<Rightarrow> nat \<Rightarrow> ('k, 'v) table_op list \<Rightarrow> (error + ('k, 'v) ExtendibleHashTable) option" where
  "table_after h c ops =
     (case new_table c of Inl e \<Rightarrow> Some (Inl e) | Inr t \<Rightarrow> table_replay h t ops)"

subsection \<open>Invariant of the table\<close>

text \<open>
  What a table satisfies after a sequence of calls, as long as its global depth is at
  most 31: the directory has \<open>2 ^ global_depth\<close> slots and \<open>num_buckets\<close> counts the
  buckets of the store; every slot holds an address of the store and every bucket of the
  store is referenced; no local depth exceeds the global depth; two slots reference the
  same bucket exactly when they agree on the low \<open>local_depth\<close> bits; the hash of every
  key of a bucket agrees with every slot of the bucket on these bits; and a bucket has
  distinct keys, at most \<open>bucket_size\<close> pairs, and the capacity of the table.
\<close>

definition tinv :: "('k \<Rightarrow> nat) \<Rightarrow> ('k, 'v) ExtendibleHashTable \<Rightarrow> bool" where
  "tinv h t \<longleftrightarrow>
     length (dir t) = 2 ^ global_depth t \<and>
     num_buckets t = length (heap t) \<and>
     (\<forall>i < length (dir t). dir t ! i < length (heap t)) \<and>
     (\<forall>a < length (heap t). \<exists>i < length (dir t). dir t ! i = a) \<and>
     (\<forall>i < length (dir t). depth (heap t ! (dir t ! i)) \<le> global_depth t) \<and>
     (\<forall>i < length (dir t). \<forall>j < length (dir t).
        dir t ! i = dir t ! j \<longleftrightarrow>
        i mod 2 ^ depth (heap t ! (dir t ! i)) = j mod 2 ^ depth (heap t ! (dir t ! i))) \<and>
     (\<forall>i < length (dir t). \<forall>p \<in> set (list_b (heap t ! (dir t ! i))).
        h (fst p) mod 2 ^ depth (heap t ! (dir t ! i)) = i mod 2 ^ depth (heap t ! (dir t ! i))) \<and>
     (\<forall>a < length (heap t).
        distinct (map fst (list_b (heap t ! a))) \<and>
        length (list_b (heap t ! a)) \<le> size_b (heap t ! a) \<and>
        size_b (heap t ! a) = bucket_size t)"

text \<open>
  The bucket that the hash of a key leads to, and the partial map that the table
  represents: what \<^verbatim>\<open>Find\<close> returns for each key while the global depth is at most 31.
\<close>

definition target :: "('k \<Rightarrow> nat) \<Rightarrow> ('k, 'v) ExtendibleHashTable \<Rightarrow> 'k \<Rightarrow> ('k, 'v) Bucket" where
  "target h t k = heap t ! (dir t ! (h k mod 2 ^ global_depth t))"

definition content :: "('k \<Rightarrow> nat) \<Rightarrow> ('k, 'v) ExtendibleHashTable \<Rightarrow> 'k \<Rightarrow> 'v option" where
  "content h t k = map_of (list_b (heap t ! (dir t ! (h k mod 2 ^ global_depth t)))) k"

text \<open>
  The table after the split of the bucket at address \<open>a\<close>, written without the
  signature of the bucket: the slots that held \<open>a\<close> and have bit \<open>d\<close> set hold the new
  address. \<^verbatim>\<open>RedistributeBucket\<close> computes it when the invariant holds and the local depth
  is at most 31.
\<close>

definition split_table ::
  "('k \<Rightarrow> nat) \<Rightarrow> ('k, 'v) ExtendibleHashTable \<Rightarrow> nat \<Rightarrow> ('k, 'v) ExtendibleHashTable" where
  "split_table h t a =
     (let b = heap t ! a; d = depth b in
      t\<lparr>num_buckets := num_buckets t + 1,
        dir := map (\<lambda>(i, x). if x = a \<and> bit i d then length (heap t) else x) (enumerate 0 (dir t)),
        heap := (heap t)[a := b\<lparr>depth := d + 1,
                               list_b := filter (\<lambda>p. \<not> bit (h (fst p)) d) (list_b b)\<rparr>]
                @ [\<lparr>size_b = bucket_size t, depth = d + 1,
                     list_b = rev (filter (\<lambda>p. bit (h (fst p)) d) (list_b b))\<rparr>]\<rparr>)"

text \<open>
  What a call of \<^verbatim>\<open>Insert\<close> that returns has done: the global depth has not decreased,
  and if it is at most 31 and the invariant held before, the invariant holds and the key
  has its value.
\<close>

definition Insert_post ::
  "('k \<Rightarrow> nat) \<Rightarrow> 'k \<Rightarrow> 'v \<Rightarrow> ('k, 'v) ExtendibleHashTable \<Rightarrow>
     error + ('k, 'v) ExtendibleHashTable \<Rightarrow> bool" where
  "Insert_post h k v t r \<longleftrightarrow>
     (case r of
        Inl e \<Rightarrow> True
      | Inr t' \<Rightarrow> global_depth t \<le> global_depth t' \<and>
          (tinv h t \<and> global_depth t' \<le> 31 \<longrightarrow>
             tinv h t' \<and> content h t' = (content h t)(k \<mapsto> v) \<and>
             bucket_size t' = bucket_size t))"

subsection \<open>Keys of type int\<close>

text \<open>
  The source instantiates the table for keys of type \<^verbatim>\<open>int\<close> (and for page ids and
  pointers). An \<^verbatim>\<open>int\<close> key is a word of 32 bits. \<^verbatim>\<open>std::hash<int>\<close> belongs to the standard
  library: in libstdc++ and in libc++ it is the conversion of the key to \<^verbatim>\<open>size_t\<close>, which
  extends the sign.
\<close>

definition int_hash :: "32 word \<Rightarrow> nat" where
  "int_hash x = to_size_t x"

subsection \<open>Tables on which the loop of Insert is followed by hand\<close>

text \<open>
  A table is \<open>pinned\<close> for a key \<open>k\<close> when the hash of \<open>k\<close> has its low 31 bits clear and
  the bucket of slot 0 is full of other keys, whose hashes have their low 32 bits clear:
  every mask of the source sends \<open>k\<close> to slot 0 and no split moves a pair out of that bucket.
\<close>

definition pinned :: "('k \<Rightarrow> nat) \<Rightarrow> 'k \<Rightarrow> ('k, 'v) ExtendibleHashTable \<Rightarrow> bool" where
  "pinned h k t \<longleftrightarrow>
     dir t \<noteq> [] \<and> dir t ! 0 < length (heap t) \<and>
     depth (heap t ! (dir t ! 0)) \<le> global_depth t \<and>
     Bucket_IsFull (heap t ! (dir t ! 0)) \<and>
     list_b (heap t ! (dir t ! 0)) \<noteq> [] \<and>
     k \<notin> fst ` set (list_b (heap t ! (dir t ! 0))) \<and>
     list_all (\<lambda>p. h (fst p) mod 2 ^ 32 = 0) (list_b (heap t ! (dir t ! 0))) \<and>
     h k mod 2 ^ 31 = 0"

text \<open>
  A \<open>stage\<close> of the insertion of \<open>k\<close> into a table of capacity 1: the slot of \<open>k\<close> holds
  the address \<open>a\<close> of a bucket of the global depth whose only pair is \<open>p\<close>. \<open>frame a t t'\<close>
  relates a table to a later one: the slots of \<open>t\<close> hold in \<open>t'\<close> what they held, and so
  do the addresses of \<open>t\<close> other than \<open>a\<close>.
\<close>

definition stage :: "('k \<Rightarrow> nat) \<Rightarrow> 'k \<Rightarrow> 'k \<times> 'v \<Rightarrow> nat \<Rightarrow> ('k, 'v) ExtendibleHashTable \<Rightarrow> bool" where
  "stage h k p a t \<longleftrightarrow>
     bucket_size t = 1 \<and> length (dir t) = 2 ^ global_depth t \<and>
     h k mod 2 ^ 31 < length (dir t) \<and> dir t ! (h k mod 2 ^ 31) = a \<and>
     a < length (heap t) \<and>
     heap t ! a = \<lparr>size_b = 1, depth = global_depth t, list_b = [p]\<rparr>"

definition frame :: "nat \<Rightarrow> ('k, 'v) ExtendibleHashTable \<Rightarrow> ('k, 'v) ExtendibleHashTable \<Rightarrow> bool" where
  "frame a t t' \<longleftrightarrow>
     length (dir t) \<le> length (dir t') \<and> list_all (\<lambda>i. dir t' ! i = dir t ! i) [0 ..< length (dir t)] \<and>
     length (heap t) \<le> length (heap t') \<and>
     list_all (\<lambda>j. j = a \<or> heap t' ! j = heap t ! j) [0 ..< length (heap t)]"

section \<open>Properties of the LRU-K replacer\<close>

subsection \<open>Lists and iterators\<close>

lemma index_of_None: "index_of f xs = None \<longleftrightarrow> f \<notin> key ` set xs"
  by (induction xs) auto

lemma index_of_Some:
  "index_of f xs = Some i \<Longrightarrow>
     \<exists>ys e zs. xs = ys @ e # zs \<and> length ys = i \<and> key e = f \<and> f \<notin> key ` set ys"
proof (induction xs arbitrary: i)
  case Nil
  then show ?case by simp
next
  case (Cons a xs)
  show ?case
  proof (cases "key a = f")
    case True
    with Cons.prems have "i = 0" by simp
    with True show ?thesis by (intro exI [of _ "[]"]) auto
  next
    case False
    with Cons.prems obtain j where j: "index_of f xs = Some j" "i = Suc j" by auto
    from Cons.IH [OF j(1)] obtain ys e zs where
      "xs = ys @ e # zs" "length ys = j" "key e = f" "f \<notin> key ` set ys" by blast
    with False j(2) show ?thesis
      by (intro exI [of _ "a # ys"] exI [of _ e] exI [of _ zs]) auto
  qed
qed

lemma erase_at_append [simp]: "erase_at (length ys) (ys @ e # zs) = ys @ zs"
  by (simp add: erase_at_def)

lemma size_dec_Suc [simp]: "size_dec (Suc n) = n"
  by (simp add: size_dec_def)

lemma scan_back_Some:
  "scan_back l n = Some i \<Longrightarrow> i < n \<and> evictable (l ! i) \<and> (\<forall>j. i < j \<and> j < n \<longrightarrow> \<not> evictable (l ! j))"
proof (induction n)
  case 0
  then show ?case by simp
next
  case (Suc n)
  show ?case
  proof (cases "evictable (l ! n)")
    case True
    with Suc.prems show ?thesis by auto
  next
    case False
    with Suc.prems have "scan_back l n = Some i" by simp
    from Suc.IH [OF this] False show ?thesis
      by (auto simp: less_Suc_eq)
  qed
qed

lemma scan_back_None:
  "scan_back l n = None \<Longrightarrow> \<forall>j < n. \<not> evictable (l ! j)"
  by (induction n) (auto simp: less_Suc_eq split: if_splits)

lemma split_at: "i < length xs \<Longrightarrow> \<exists>ys zs. xs = ys @ (xs ! i) # zs \<and> length ys = i"
  by (metis id_take_nth_drop length_take min.absorb2 less_imp_le_nat)

lemma index_of_append:
  "f \<notin> key ` set ys \<Longrightarrow> key e = f \<Longrightarrow> index_of f (ys @ e # zs) = Some (length ys)"
  by (induction ys) auto

lemma locate_history:
  assumes "histroy_list s = ys @ e # zs" "key e = f" "f \<notin> key ` set ys"
  shows "locate s f = Some (InHistory (length ys))"
  using assms by (simp add: locate_def index_of_append)

lemma locate_cache:
  assumes "f \<notin> key ` set (histroy_list s)" "cache_list s = ys @ e # zs" "key e = f"
    "f \<notin> key ` set ys"
  shows "locate s f = Some (InCache (length ys))"
proof -
  have "index_of f (histroy_list s) = None" using assms(1) by (simp add: index_of_None)
  then show ?thesis using assms by (simp add: locate_def index_of_append)
qed

lemma tracked_cases:
  assumes "f \<in> key ` set (tracked s)"
  obtains
    (history) ys e zs where "histroy_list s = ys @ e # zs" "key e = f" "f \<notin> key ` set ys"
  | (cache) ys e zs where "f \<notin> key ` set (histroy_list s)" "cache_list s = ys @ e # zs"
      "key e = f" "f \<notin> key ` set ys"
proof (cases "index_of f (histroy_list s)")
  case (Some i)
  from index_of_Some [OF Some] show ?thesis using history by blast
next
  case None
  then have nh: "f \<notin> key ` set (histroy_list s)" by (simp add: index_of_None)
  with assms have "f \<in> key ` set (cache_list s)" by (auto simp: tracked_def)
  then obtain i where "index_of f (cache_list s) = Some i"
    using index_of_None [of f "cache_list s"] by (cases "index_of f (cache_list s)") auto
  from index_of_Some [OF this] nh show ?thesis using cache by blast
qed


subsection \<open>What each operation returns\<close>


lemma scan_back_split:
  assumes "scan_back l (length l) = Some i"
  shows "\<exists>ys e zs. l = ys @ e # zs \<and> length ys = i \<and> e = l ! i \<and> evictable e \<and> (\<forall>x \<in> set zs. \<not> evictable x)
           \<and> erase_at i l = ys @ zs"
proof -
  from scan_back_Some [OF assms] have i: "i < length l" "evictable (l ! i)"
    and later: "\<forall>j. i < j \<and> j < length l \<longrightarrow> \<not> evictable (l ! j)" by auto
  from split_at [OF i(1)] obtain ys zs where d: "l = ys @ (l ! i) # zs" "length ys = i" by blast
  have "\<not> evictable x" if "x \<in> set zs" for x
  proof -
    from that obtain j where j: "j < length zs" "zs ! j = x" by (auto simp: in_set_conv_nth)
    have "l ! (Suc (i + j)) = x"
      by (subst d(1)) (simp add: nth_append d(2) j(2))
    moreover have "Suc (i + j) < length l"
      by (subst d(1)) (simp add: d(2) j(1))
    ultimately show ?thesis using later by auto
  qed
  moreover have "erase_at i l = ys @ zs"
    by (subst d(1)) (metis d(2) erase_at_append)
  ultimately show ?thesis using d i(2) by blast
qed

lemma scan_back_all:
  assumes "scan_back l (length l) = None"
  shows "\<forall>x \<in> set l. \<not> evictable x"
  using scan_back_None [OF assms] by (auto simp: in_set_conv_nth)

lemma Evict_cases:
  obtains
    (history) ys e zs where "histroy_list s = ys @ e # zs" "evictable e"
      "\<forall>x \<in> set zs. \<not> evictable x"
      "Evict s = (Some (key e), s\<lparr>histroy_list := ys @ zs, map_keys := map_keys s - {key e},
                                   curr_size := size_dec (curr_size s)\<rparr>)"
  | (cache) ys e zs where "cache_list s = ys @ e # zs" "evictable e"
      "\<forall>x \<in> set zs. \<not> evictable x" "\<forall>x \<in> set (histroy_list s). \<not> evictable x"
      "Evict s = (Some (key e), s\<lparr>cache_list := ys @ zs, map_keys := map_keys s - {key e},
                                   curr_size := size_dec (curr_size s)\<rparr>)"
  | (no_victim) "\<forall>x \<in> set (tracked s). \<not> evictable x" "Evict s = (None, s)"
proof (cases "scan_back (histroy_list s) (length (histroy_list s))")
  case (Some i)
  from scan_back_split [OF Some] obtain ys e zs where
    "histroy_list s = ys @ e # zs" "e = histroy_list s ! i" "evictable e"
    "\<forall>x \<in> set zs. \<not> evictable x" "erase_at i (histroy_list s) = ys @ zs" by blast
  moreover from this Some have "Evict s = (Some (key e), s\<lparr>histroy_list := ys @ zs, map_keys := map_keys s - {key e},
                                   curr_size := size_dec (curr_size s)\<rparr>)"
    by (simp add: Evict_def Let_def)
  ultimately show ?thesis using history by blast
next
  case None
  note N1 = None
  from scan_back_all [OF N1] have nh: "\<forall>x \<in> set (histroy_list s). \<not> evictable x" .
  show ?thesis
  proof (cases "scan_back (cache_list s) (length (cache_list s))")
    case None
    from scan_back_all [OF None] nh have "\<forall>x \<in> set (tracked s). \<not> evictable x"
      by (auto simp: tracked_def)
    moreover have "Evict s = (None, s)" using N1 None by (simp add: Evict_def)
    ultimately show ?thesis by (rule no_victim)
  next
    case (Some i)
    from scan_back_split [OF Some] obtain ys e zs where
      "cache_list s = ys @ e # zs" "e = cache_list s ! i" "evictable e"
      "\<forall>x \<in> set zs. \<not> evictable x" "erase_at i (cache_list s) = ys @ zs" by blast
    moreover from this Some N1 have "Evict s = (Some (key e), s\<lparr>cache_list := ys @ zs, map_keys := map_keys s - {key e},
                                   curr_size := size_dec (curr_size s)\<rparr>)"
      by (simp add: Evict_def Let_def)
    ultimately show ?thesis using cache nh by blast
  qed
qed


lemma count_access_history:
  assumes "histroy_list s = ys @ e # zs" "key e = f" "f \<notin> key ` set ys" "is_in_history_list e"
  shows "count_access s f =
    Inr (if cnt e + 1 < k_threshold s then s\<lparr>histroy_list := ys @ e\<lparr>cnt := cnt e + 1\<rparr> # zs\<rparr>
         else s\<lparr>histroy_list := ys @ zs,
                cache_list := e\<lparr>cnt := cnt e + 1, is_in_history_list := False\<rparr> # cache_list s,
                map_keys := insert f (map_keys s - {f})\<rparr>)"
  using assms(1,4) by (simp add: count_access_def locate_history [OF assms(1-3)] Let_def)

lemma count_access_cache:
  assumes "f \<notin> key ` set (histroy_list s)" "cache_list s = ys @ e # zs" "key e = f"
    "f \<notin> key ` set ys" "\<not> is_in_history_list e"
  shows "count_access s f =
    Inr (if cnt e + 1 < k_threshold s then s\<lparr>cache_list := ys @ e\<lparr>cnt := cnt e + 1\<rparr> # zs\<rparr>
         else s\<lparr>cache_list := e\<lparr>cnt := cnt e + 1, is_in_history_list := False\<rparr> # ys @ zs,
                map_keys := insert f (map_keys s - {f})\<rparr>)"
  using assms(2,5) by (simp add: count_access_def locate_cache [OF assms(1-4)] Let_def)

lemma RecordAccess_new:
  assumes "frame_valid s f" "f \<notin> map_keys s" "\<not> IsFull s"
  shows "RecordAccess s f =
    Inr (if 1 < k_threshold s
         then s\<lparr>histroy_list := (new_entry f)\<lparr>cnt := 1\<rparr> # histroy_list s,
                map_keys := insert f (map_keys s)\<rparr>
         else s\<lparr>cache_list := (new_entry f)\<lparr>cnt := 1, is_in_history_list := False\<rparr> # cache_list s,
                map_keys := insert f (map_keys s)\<rparr>)"
proof -
  let ?s0 = "s\<lparr>histroy_list := new_entry f # histroy_list s, map_keys := insert f (map_keys s)\<rparr>"
  have "count_access ?s0 f =
    Inr (if cnt (new_entry f) + 1 < k_threshold ?s0
         then ?s0\<lparr>histroy_list := [] @ (new_entry f)\<lparr>cnt := cnt (new_entry f) + 1\<rparr> # histroy_list s\<rparr>
         else ?s0\<lparr>histroy_list := [] @ histroy_list s,
                cache_list := (new_entry f)\<lparr>cnt := cnt (new_entry f) + 1, is_in_history_list := False\<rparr> # cache_list ?s0,
                map_keys := insert f (map_keys ?s0 - {f})\<rparr>)"
    by (rule count_access_history) (simp_all add: new_entry_def)
  then show ?thesis using assms by (simp add: RecordAccess_def new_entry_def)
qed

lemma SetEvictable_history:
  assumes "frame_valid s f" "f \<in> map_keys s" "histroy_list s = ys @ e # zs" "key e = f"
    "f \<notin> key ` set ys"
  shows "SetEvictable s f b =
    Inr (s\<lparr>histroy_list := ys @ e\<lparr>evictable := b\<rparr> # zs,
           curr_size := (if evictable e \<and> \<not> b then size_dec (curr_size s)
                         else if \<not> evictable e \<and> b then curr_size s + 1 else curr_size s)\<rparr>)"
  using assms(1-3) by (simp add: SetEvictable_def locate_history [OF assms(3-5)] Let_def)

lemma SetEvictable_cache:
  assumes "frame_valid s f" "f \<in> map_keys s" "f \<notin> key ` set (histroy_list s)"
    "cache_list s = ys @ e # zs" "key e = f" "f \<notin> key ` set ys"
  shows "SetEvictable s f b =
    Inr (s\<lparr>cache_list := ys @ e\<lparr>evictable := b\<rparr> # zs,
           curr_size := (if evictable e \<and> \<not> b then size_dec (curr_size s)
                         else if \<not> evictable e \<and> b then curr_size s + 1 else curr_size s)\<rparr>)"
  using assms(1,2,4) by (simp add: SetEvictable_def locate_cache [OF assms(3-6)] Let_def)

lemma Remove_history:
  assumes "frame_valid s f" "f \<in> map_keys s" "histroy_list s = ys @ e # zs" "key e = f"
    "f \<notin> key ` set ys" "is_in_history_list e"
  shows "Remove s f =
    (if \<not> evictable e then Inl Invariant
     else Inr (s\<lparr>histroy_list := ys @ zs, map_keys := map_keys s - {f},
                 curr_size := size_dec (curr_size s)\<rparr>))"
  using assms(1-3,6) by (simp add: Remove_def locate_history [OF assms(3-5)] Let_def)

lemma Remove_cache:
  assumes "frame_valid s f" "f \<in> map_keys s" "f \<notin> key ` set (histroy_list s)"
    "cache_list s = ys @ e # zs" "key e = f" "f \<notin> key ` set ys" "\<not> is_in_history_list e"
  shows "Remove s f =
    (if \<not> evictable e then Inl Invariant
     else Inr (s\<lparr>cache_list := ys @ zs, map_keys := map_keys s - {f},
                 curr_size := size_dec (curr_size s)\<rparr>))"
  using assms(1,2,4,7) by (simp add: Remove_def locate_cache [OF assms(3-6)] Let_def)


subsection \<open>The invariant is preserved\<close>

lemma rinv_new: "rinv (new_replacer n k)"
  by (simp add: rinv_def new_replacer_def tracked_def)


lemma rinv_Evict: assumes "rinv s" shows "rinv (snd (Evict s))"
proof (cases s rule: Evict_cases)
  case (history ys e zs)
  then show ?thesis using assms by (auto simp: rinv_def tracked_def image_iff)
next
  case (cache ys e zs)
  then show ?thesis using assms by (auto simp: rinv_def tracked_def image_iff)
next
  case no_victim
  then show ?thesis using assms by simp
qed


lemma rinv_count_access:
  assumes "rinv s" "f \<in> map_keys s"
  shows "\<exists>s'. count_access s f = Inr s' \<and> rinv s'"
proof -
  from assms have "f \<in> key ` set (tracked s)" by (simp add: rinv_def)
  then show ?thesis
  proof (cases rule: tracked_cases)
    case (history ys e zs)
    moreover from this assms(1) have "is_in_history_list e" by (simp add: rinv_def)
    ultimately show ?thesis using assms(1)
      by (auto simp: count_access_history rinv_def tracked_def image_iff)
  next
    case (cache ys e zs)
    moreover from this assms(1) have "\<not> is_in_history_list e" by (simp add: rinv_def)
    ultimately show ?thesis using assms(1)
      by (auto simp: count_access_cache rinv_def tracked_def image_iff)
  qed
qed


lemma rinv_RecordAccess:
  assumes "rinv s" "RecordAccess s f = Inr s'"
  shows "rinv s'"
proof (cases "f \<in> map_keys s")
  case True
  with assms(2) have "count_access s f = Inr s'"
    by (simp add: RecordAccess_def split: if_splits)
  with rinv_count_access [OF assms(1) True] show ?thesis by auto
next
  case False
  from assms(2) have v: "frame_valid s f" by (simp add: RecordAccess_def split: if_splits)
  show ?thesis
  proof (cases "IsFull s")
    case True
    with assms False v show ?thesis by (simp add: RecordAccess_def)
  next
    case nf: False
    from assms(2) have "s' = (if 1 < k_threshold s
         then s\<lparr>histroy_list := (new_entry f)\<lparr>cnt := 1\<rparr> # histroy_list s,
                map_keys := insert f (map_keys s)\<rparr>
         else s\<lparr>cache_list := (new_entry f)\<lparr>cnt := 1, is_in_history_list := False\<rparr> # cache_list s,
                map_keys := insert f (map_keys s)\<rparr>)"
      unfolding RecordAccess_new [OF v False nf] by simp
    then show ?thesis using assms(1) False v
      by (auto simp: rinv_def tracked_def new_entry_def frame_valid_def)
  qed
qed

lemma rinv_SetEvictable:
  assumes "rinv s" "SetEvictable s f b = Inr s'"
  shows "rinv s'"
proof (cases "f \<in> map_keys s")
  case False
  with assms show ?thesis by (simp add: SetEvictable_def split: if_splits)
next
  case True
  from assms(2) have v: "frame_valid s f" by (simp add: SetEvictable_def split: if_splits)
  from True assms(1) have "f \<in> key ` set (tracked s)" by (simp add: rinv_def)
  then show ?thesis
  proof (cases rule: tracked_cases)
    case (history ys e zs)
    have s': "s' = s\<lparr>histroy_list := ys @ e\<lparr>evictable := b\<rparr> # zs,
           curr_size := (if evictable e \<and> \<not> b then size_dec (curr_size s)
                         else if \<not> evictable e \<and> b then curr_size s + 1 else curr_size s)\<rparr>"
      using assms(2) unfolding SetEvictable_history [OF v True history] by simp
    show ?thesis using assms(1) history(1) unfolding s'
      by (cases "evictable e"; cases b) (simp_all add: rinv_def tracked_def)
  next
    case (cache ys e zs)
    have s': "s' = s\<lparr>cache_list := ys @ e\<lparr>evictable := b\<rparr> # zs,
           curr_size := (if evictable e \<and> \<not> b then size_dec (curr_size s)
                         else if \<not> evictable e \<and> b then curr_size s + 1 else curr_size s)\<rparr>"
      using assms(2) unfolding SetEvictable_cache [OF v True cache] by simp
    show ?thesis using assms(1) cache(2) unfolding s'
      by (cases "evictable e"; cases b) (simp_all add: rinv_def tracked_def)
  qed
qed

lemma rinv_Remove:
  assumes "rinv s" "Remove s f = Inr s'"
  shows "rinv s'"
proof (cases "f \<in> map_keys s")
  case False
  with assms show ?thesis by (simp add: Remove_def split: if_splits)
next
  case True
  from assms(2) have v: "frame_valid s f" by (simp add: Remove_def split: if_splits)
  from True assms(1) have "f \<in> key ` set (tracked s)" by (simp add: rinv_def)
  then show ?thesis
  proof (cases rule: tracked_cases)
    case (history ys e zs)
    from history assms(1) have h: "is_in_history_list e" by (simp add: rinv_def)
    have ev: "evictable e" and s': "s' = s\<lparr>histroy_list := ys @ zs, map_keys := map_keys s - {f},
                 curr_size := size_dec (curr_size s)\<rparr>"
      using assms(2) unfolding Remove_history [OF v True history h] by (simp_all split: if_splits)
    show ?thesis using assms(1) history(1,2) ev unfolding s'
      by (auto simp: rinv_def tracked_def image_iff)
  next
    case (cache ys e zs)
    from cache assms(1) have h: "\<not> is_in_history_list e" by (simp add: rinv_def)
    have ev: "evictable e" and s': "s' = s\<lparr>cache_list := ys @ zs, map_keys := map_keys s - {f},
                 curr_size := size_dec (curr_size s)\<rparr>"
      using assms(2) unfolding Remove_cache [OF v True cache h] by (simp_all split: if_splits)
    show ?thesis using assms(1) cache(2,3) ev unfolding s'
      by (auto simp: rinv_def tracked_def image_iff)
  qed
qed

lemma rinv_step: "rinv s \<Longrightarrow> step s x = Inr s' \<Longrightarrow> rinv s'"
  by (cases x) (auto intro: rinv_RecordAccess rinv_SetEvictable rinv_Remove rinv_Evict)

lemma rinv_replay: "rinv s \<Longrightarrow> replay s xs = Inr s' \<Longrightarrow> rinv s'"
proof (induction xs arbitrary: s)
  case Nil
  then show ?case by simp
next
  case (Cons x xs)
  then show ?case by (auto split: sum.splits dest: rinv_step)
qed

lemma rinv_keys:
  "rinv s \<Longrightarrow> map_keys s = set (map key (histroy_list s)) \<union> set (map key (cache_list s))"
  by (auto simp: rinv_def tracked_def)

lemma RecordAccess_tracked_history:
  assumes "rinv s" "histroy_list s = ys @ e # zs"
  shows "RecordAccess s (key e) =
    Inr (if cnt e + 1 < k_threshold s then s\<lparr>histroy_list := ys @ e\<lparr>cnt := cnt e + 1\<rparr> # zs\<rparr>
         else s\<lparr>histroy_list := ys @ zs,
                cache_list := e\<lparr>cnt := cnt e + 1, is_in_history_list := False\<rparr> # cache_list s\<rparr>)"
    and "cnt e + 1 \<le> k_threshold s"
proof -
  from assms have d: "key e \<notin> key ` set ys" and h: "is_in_history_list e"
    and v: "frame_valid s (key e)" and m: "key e \<in> map_keys s" and c: "cnt e < k_threshold s"
    by (auto simp: rinv_def tracked_def frame_valid_def)
  from m have "insert (key e) (map_keys s - {key e}) = map_keys s" by auto
  then show "RecordAccess s (key e) =
    Inr (if cnt e + 1 < k_threshold s then s\<lparr>histroy_list := ys @ e\<lparr>cnt := cnt e + 1\<rparr> # zs\<rparr>
         else s\<lparr>histroy_list := ys @ zs,
                cache_list := e\<lparr>cnt := cnt e + 1, is_in_history_list := False\<rparr> # cache_list s\<rparr>)"
    using v m by (simp add: RecordAccess_def count_access_history [OF assms(2) refl d h])
  from c show "cnt e + 1 \<le> k_threshold s" by simp
qed

lemma RecordAccess_tracked_cache:
  assumes "rinv s" "cache_list s = ys @ e # zs"
  shows "RecordAccess s (key e) =
    Inr (s\<lparr>cache_list := e\<lparr>cnt := cnt e + 1, is_in_history_list := False\<rparr> # ys @ zs\<rparr>)"
proof -
  from assms have d: "key e \<notin> key ` set ys" and h: "\<not> is_in_history_list e"
    and v: "frame_valid s (key e)" and m: "key e \<in> map_keys s" and c: "k_threshold s \<le> cnt e"
    and nh: "key e \<notin> key ` set (histroy_list s)"
    by (auto simp: rinv_def tracked_def frame_valid_def)
  from m have "insert (key e) (map_keys s - {key e}) = map_keys s" by auto
  then show ?thesis
    using v m c by (simp add: RecordAccess_def count_access_cache [OF nh assms(2) refl d h])
qed


subsection \<open>The replacer is never full for an untracked frame\<close>

lemma frame_limit_le: "frame_limit n \<le> int n"
proof -
  have "sint (word_of_nat n :: 32 word) = signed_take_bit 31 (int n)"
    by transfer simp
  then show ?thesis
    by (simp add: frame_limit_def signed_take_bit_int_less_eq_self_iff)
qed

lemma frame_limit_small: "n < 2 ^ 31 \<Longrightarrow> frame_limit n = int n"
proof -
  assume n: "n < 2 ^ 31"
  have "sint (word_of_nat n :: 32 word) = signed_take_bit 31 (int n)"
    by transfer simp
  moreover have "int n < 2 ^ 31" using n by (metis of_nat_less_iff of_nat_numeral of_nat_power)
  ultimately show ?thesis
    by (simp add: frame_limit_def signed_take_bit_int_eq_self)
qed

lemma frame_valid_small:
  "replacer_size s < 2 ^ 31 \<Longrightarrow> frame_valid s f \<longleftrightarrow> 0 \<le> f \<and> f < int (replacer_size s)"
  by (simp add: frame_valid_def frame_limit_small)

lemma tracked_lt_limit:
  assumes "rinv s" "frame_valid s f" "f \<notin> map_keys s"
  shows "length (tracked s) < replacer_size s"
proof -
  let ?K = "key ` set (tracked s)"
  let ?L = "frame_limit (replacer_size s)"
  from assms(1) have d: "distinct (map key (tracked s))" and m: "map_keys s = ?K"
    and r: "\<forall>e \<in> set (tracked s). 0 \<le> key e \<and> key e < ?L"
    by (simp_all add: rinv_def)
  from assms(2) have f: "0 \<le> f" "f < ?L" by (simp_all add: frame_valid_def)
  have "?K \<subseteq> {0..<?L} - {f}" using r assms(3) m by auto
  then have "card ?K \<le> card ({0..<?L} - {f})" by (intro card_mono) auto
  also have "\<dots> = nat ?L - 1" using f by simp
  also have "\<dots> < nat ?L" using f by simp
  also have "\<dots> \<le> replacer_size s" using frame_limit_le [of "replacer_size s"] by simp
  finally have "card ?K < replacer_size s" .
  moreover have "card ?K = length (tracked s)"
    using d by (metis distinct_card length_map set_map)
  ultimately show ?thesis by simp
qed

lemma not_full:
  assumes "rinv s" "frame_valid s f" "f \<notin> map_keys s"
  shows "\<not> IsFull s"
proof -
  from assms(1) have "curr_size s = length (filter evictable (tracked s))" by (simp add: rinv_def)
  also have "\<dots> \<le> length (tracked s)" by simp
  finally show ?thesis using tracked_lt_limit [OF assms] by (simp add: IsFull_def)
qed


subsection \<open>The lists are ordered by age\<close>

lemma ginv_gord: "ginv s g = gord (map_keys s) (map key (histroy_list s)) (map key (cache_list s)) g"
  by (simp add: ginv_def gord_def)

lemma sorted_wrt_upd:
  assumes "f \<notin> set xs" "sorted_wrt (\<lambda>a b. t b < t a) xs"
  shows "sorted_wrt (\<lambda>a b. (t(f := c)) b < (t(f := c)) a) xs"
  using assms(2) by (rule sorted_wrt_mono_rel [rotated]) (use assms(1) in auto)

lemma sorted_wrt_front:
  assumes "f \<notin> set xs" "\<forall>x \<in> set xs. t x < c" "sorted_wrt (\<lambda>a b. t b < (t a :: nat)) xs"
  shows "sorted_wrt (\<lambda>a b. (t(f := c)) b < (t(f := c)) a) (f # xs)"
  using sorted_wrt_upd [OF assms(1,3), of c] assms(1,2) by auto

lemma gord_tick:
  assumes "gord K H C g" "K' \<subseteq> K"
  shows "gord K' H C (g\<lparr>clock := clock g + 1\<rparr>)"
  using assms by (auto simp: gord_def less_Suc_eq)

lemma gord_erase_history:
  "gord K (ys @ f # zs) C g \<Longrightarrow> gord K (ys @ zs) C g"
  by (auto simp: gord_def sorted_wrt_append)

lemma gord_erase_cache:
  "gord K H (ys @ f # zs) g \<Longrightarrow> gord K H (ys @ zs) g"
  by (auto simp: gord_def sorted_wrt_append)

lemma gord_touch:
  assumes "gord K H C g" "f \<notin> set C"
  shows "gord K H C (g\<lparr>clock := clock g + 1, last_access := (last_access g)(f := clock g)\<rparr>)"
  using assms sorted_wrt_upd [OF assms(2), of "last_access g" "clock g"]
  by (auto simp: gord_def less_Suc_eq)

lemma gord_touch_front:
  assumes "gord K H C g" "f \<notin> set C" "set C \<subseteq> K"
  shows "gord K H (f # C) (g\<lparr>clock := clock g + 1, last_access := (last_access g)(f := clock g)\<rparr>)"
proof -
  from assms have "\<forall>x \<in> set C. last_access g x < clock g" by (auto simp: gord_def)
  from sorted_wrt_front [OF assms(2) this] assms(1) 
  have "sorted_wrt (\<lambda>a b. ((last_access g)(f := clock g)) b < ((last_access g)(f := clock g)) a) (f # C)"
    by (simp add: gord_def)
  then show ?thesis using assms(1) by (auto simp: gord_def less_Suc_eq)
qed

lemma gord_new_history:
  assumes "gord K H C g" "f \<notin> K" "set H \<subseteq> K" "set C \<subseteq> K"
  shows "gord (insert f K) (f # H) C
    (g\<lparr>clock := clock g + 1, first_access := (first_access g)(f := clock g),
       last_access := (last_access g)(f := clock g)\<rparr>)"
proof -
  from assms have fH: "f \<notin> set H" and fC: "f \<notin> set C" by auto
  from assms have "\<forall>x \<in> set H. first_access g x < clock g" by (auto simp: gord_def)
  from sorted_wrt_front [OF fH this] assms(1)
  have 1: "sorted_wrt (\<lambda>a b. ((first_access g)(f := clock g)) b < ((first_access g)(f := clock g)) a) (f # H)"
    by (simp add: gord_def)
  from sorted_wrt_upd [OF fC, of "last_access g" "clock g"] assms(1)
  have 2: "sorted_wrt (\<lambda>a b. ((last_access g)(f := clock g)) b < ((last_access g)(f := clock g)) a) C"
    by (simp add: gord_def)
  show ?thesis using assms(1) 1 2 by (auto simp: gord_def less_Suc_eq)
qed

lemma gord_new_cache:
  assumes "gord K H C g" "f \<notin> K" "set H \<subseteq> K" "set C \<subseteq> K"
  shows "gord (insert f K) H (f # C)
    (g\<lparr>clock := clock g + 1, first_access := (first_access g)(f := clock g),
       last_access := (last_access g)(f := clock g)\<rparr>)"
proof -
  from assms have fH: "f \<notin> set H" and fC: "f \<notin> set C" by auto
  from assms have "\<forall>x \<in> set C. last_access g x < clock g" by (auto simp: gord_def)
  from sorted_wrt_front [OF fC this] assms(1)
  have 1: "sorted_wrt (\<lambda>a b. ((last_access g)(f := clock g)) b < ((last_access g)(f := clock g)) a) (f # C)"
    by (simp add: gord_def)
  from sorted_wrt_upd [OF fH, of "first_access g" "clock g"] assms(1)
  have 2: "sorted_wrt (\<lambda>a b. ((first_access g)(f := clock g)) b < ((first_access g)(f := clock g)) a) H"
    by (simp add: gord_def)
  show ?thesis using assms(1) 1 2 by (auto simp: gord_def less_Suc_eq)
qed

lemma stamp_other [simp]:
  "stamp s (SetEvictableOp f b) s' g = g\<lparr>clock := clock g + 1\<rparr>"
  "stamp s (RemoveOp f) s' g = g\<lparr>clock := clock g + 1\<rparr>"
  "stamp s EvictOp s' g = g\<lparr>clock := clock g + 1\<rparr>"
  by (simp_all add: stamp_def)

lemma ginv_Evict:
  assumes "ginv s g"
  shows "ginv (snd (Evict s)) (g\<lparr>clock := clock g + 1\<rparr>)"
proof (cases s rule: Evict_cases)
  case (history ys e zs)
  from assms have "gord (map_keys s) (map key ys @ key e # map key zs) (map key (cache_list s)) g"
    by (simp add: ginv_gord history(1))
  from gord_tick [OF gord_erase_history [OF this], of "map_keys s - {key e}"]
  show ?thesis by (simp add: ginv_gord history(4))
next
  case (cache ys e zs)
  from assms have "gord (map_keys s) (map key (histroy_list s)) (map key ys @ key e # map key zs) g"
    by (simp add: ginv_gord cache(1))
  from gord_tick [OF gord_erase_cache [OF this], of "map_keys s - {key e}"]
  show ?thesis by (simp add: ginv_gord cache(5))
next
  case no_victim
  from gord_tick [OF assms [unfolded ginv_gord] subset_refl]
  show ?thesis by (simp add: ginv_gord no_victim(2))
qed

lemma ginv_SetEvictable:
  assumes "rinv s" "ginv s g" "SetEvictable s f b = Inr s'"
  shows "ginv s' (g\<lparr>clock := clock g + 1\<rparr>)"
proof -
  have "map_keys s' = map_keys s \<and> map key (histroy_list s') = map key (histroy_list s)
    \<and> map key (cache_list s') = map key (cache_list s)"
  proof (cases "f \<in> map_keys s")
    case False
    with assms(3) show ?thesis by (simp add: SetEvictable_def split: if_splits)
  next
    case True
    from assms(3) have v: "frame_valid s f" by (simp add: SetEvictable_def split: if_splits)
    from True assms(1) have "f \<in> key ` set (tracked s)" by (simp add: rinv_def)
    then show ?thesis
    proof (cases rule: tracked_cases)
      case (history ys e zs)
      from assms(3) history(1) show ?thesis
        unfolding SetEvictable_history [OF v True history] by auto
    next
      case (cache ys e zs)
      from assms(3) cache(2) show ?thesis
        unfolding SetEvictable_cache [OF v True cache] by auto
    qed
  qed
  with gord_tick [OF assms(2) [unfolded ginv_gord] subset_refl] show ?thesis
    by (simp add: ginv_gord)
qed

lemma ginv_Remove:
  assumes "rinv s" "ginv s g" "Remove s f = Inr s'"
  shows "ginv s' (g\<lparr>clock := clock g + 1\<rparr>)"
proof (cases "f \<in> map_keys s")
  case False
  with assms(3) have "s' = s" by (simp add: Remove_def split: if_splits)
  with gord_tick [OF assms(2) [unfolded ginv_gord] subset_refl] show ?thesis
    by (simp add: ginv_gord)
next
  case True
  from assms(3) have v: "frame_valid s f" by (simp add: Remove_def split: if_splits)
  from True assms(1) have "f \<in> key ` set (tracked s)" by (simp add: rinv_def)
  then show ?thesis
  proof (cases rule: tracked_cases)
    case (history ys e zs)
    from history assms(1) have h: "is_in_history_list e" by (simp add: rinv_def)
    have s': "s' = s\<lparr>histroy_list := ys @ zs, map_keys := map_keys s - {f},
                 curr_size := size_dec (curr_size s)\<rparr>"
      using assms(3) unfolding Remove_history [OF v True history h] by (simp_all split: if_splits)
    from assms(2) have "gord (map_keys s) (map key ys @ key e # map key zs) (map key (cache_list s)) g"
      by (simp add: ginv_gord history(1))
    from gord_tick [OF gord_erase_history [OF this], of "map_keys s - {f}"]
    show ?thesis by (simp add: ginv_gord s')
  next
    case (cache ys e zs)
    from cache assms(1) have h: "\<not> is_in_history_list e" by (simp add: rinv_def)
    have s': "s' = s\<lparr>cache_list := ys @ zs, map_keys := map_keys s - {f},
                 curr_size := size_dec (curr_size s)\<rparr>"
      using assms(3) unfolding Remove_cache [OF v True cache h] by (simp_all split: if_splits)
    from assms(2) have "gord (map_keys s) (map key (histroy_list s)) (map key ys @ key e # map key zs) g"
      by (simp add: ginv_gord cache(2))
    from gord_tick [OF gord_erase_cache [OF this], of "map_keys s - {f}"]
    show ?thesis by (simp add: ginv_gord s')
  qed
qed

lemma ginv_RecordAccess:
  assumes "rinv s" "ginv s g" "RecordAccess s f = Inr s'"
  shows "ginv s' (stamp s (RecordAccessOp f) s' g)"
proof (cases "f \<in> map_keys s")
  case False
  from assms(3) have v: "frame_valid s f" by (simp add: RecordAccess_def split: if_splits)
  note K = rinv_keys [OF assms(1)]
  show ?thesis
  proof (cases "IsFull s")
    case True
    with assms(3) False v have "s' = s" by (simp add: RecordAccess_def)
    with gord_tick [OF assms(2) [unfolded ginv_gord] subset_refl] False show ?thesis
      by (simp add: ginv_gord stamp_def)
  next
    case nf: False
    note R = assms(3) [unfolded RecordAccess_new [OF v False nf]]
    show ?thesis
    proof (cases "1 < k_threshold s")
      case True
      with R have s': "s' = s\<lparr>histroy_list := (new_entry f)\<lparr>cnt := 1\<rparr> # histroy_list s,
                map_keys := insert f (map_keys s)\<rparr>" by simp
      from gord_new_history [OF assms(2) [unfolded ginv_gord] False] K
      show ?thesis using False by (simp add: ginv_gord s' stamp_def new_entry_def)
    next
      case k: False
      with R have s': "s' = s\<lparr>cache_list := (new_entry f)\<lparr>cnt := 1, is_in_history_list := False\<rparr> # cache_list s,
                map_keys := insert f (map_keys s)\<rparr>" by simp
      from gord_new_cache [OF assms(2) [unfolded ginv_gord] False] K
      show ?thesis using False by (simp add: ginv_gord s' stamp_def new_entry_def)
    qed
  qed
next
  case True
  note K = rinv_keys [OF assms(1)]
  from True assms(1) have "f \<in> key ` set (tracked s)" by (simp add: rinv_def)
  then show ?thesis
  proof (cases rule: tracked_cases)
    case (history ys e zs)
    from assms(1) history have fC: "f \<notin> set (map key (cache_list s))"
      by (auto simp: rinv_def tracked_def)
    note R = assms(3) [unfolded history(2) [symmetric] RecordAccess_tracked_history(1) [OF assms(1) history(1)]]
    show ?thesis
    proof (cases "cnt e + 1 < k_threshold s")
      case c: True
      with R have s': "s' = s\<lparr>histroy_list := ys @ e\<lparr>cnt := cnt e + 1\<rparr> # zs\<rparr>" by simp
      from gord_touch [OF assms(2) [unfolded ginv_gord] fC]
      show ?thesis using True by (simp add: ginv_gord s' stamp_def history(1))
    next
      case c: False
      with R have s': "s' = s\<lparr>histroy_list := ys @ zs,
                cache_list := e\<lparr>cnt := cnt e + 1, is_in_history_list := False\<rparr> # cache_list s\<rparr>" by simp
      from assms(2) have "gord (map_keys s) (map key ys @ key e # map key zs) (map key (cache_list s)) g"
        by (simp add: ginv_gord history(1))
      from gord_touch_front [OF gord_erase_history [OF this] fC] K
      show ?thesis using True by (simp add: ginv_gord s' stamp_def history(2))
    qed
  next
    case (cache ys e zs)
    from assms(1) cache have fC: "f \<notin> set (map key ys @ map key zs)"
      by (auto simp: rinv_def tracked_def)
    note R = assms(3) [unfolded cache(3) [symmetric] RecordAccess_tracked_cache [OF assms(1) cache(2)]]
    then have s': "s' = s\<lparr>cache_list := e\<lparr>cnt := cnt e + 1, is_in_history_list := False\<rparr> # ys @ zs\<rparr>"
      by simp
    from assms(2) have "gord (map_keys s) (map key (histroy_list s)) (map key ys @ key e # map key zs) g"
      by (simp add: ginv_gord cache(2))
    from gord_touch_front [OF gord_erase_cache [OF this] fC] K cache(2)
    show ?thesis using True by (auto simp add: ginv_gord s' stamp_def cache(3))
  qed
qed

lemma ginv_step:
  assumes "rinv s" "ginv s g" "step s x = Inr s'"
  shows "ginv s' (stamp s x s' g)"
proof (cases x)
  case (RecordAccessOp f)
  with assms show ?thesis by (simp add: ginv_RecordAccess)
next
  case (SetEvictableOp f b)
  with assms ginv_SetEvictable [OF assms(1,2), of f b s'] show ?thesis by simp
next
  case (RemoveOp f)
  with assms ginv_Remove [OF assms(1,2), of f s'] show ?thesis by simp
next
  case EvictOp
  with assms ginv_Evict [OF assms(2)] show ?thesis by auto
qed

lemma ginv_replay:
  "rinv s \<Longrightarrow> ginv s g \<Longrightarrow> replay_stamped s g xs = Inr (s', g') \<Longrightarrow> rinv s' \<and> ginv s' g'"
proof (induction xs arbitrary: s g)
  case Nil
  then show ?case by simp
next
  case (Cons x xs)
  from Cons.prems(3) obtain s1 where s1: "step s x = Inr s1"
    and r: "replay_stamped s1 (stamp s x s1 g) xs = Inr (s', g')"
    by (auto split: sum.splits)
  from Cons.IH [OF rinv_step [OF Cons.prems(1) s1] ginv_step [OF Cons.prems(1,2) s1] r]
  show ?case .
qed

lemma ginv_new: "ginv (new_replacer n k) ghost0"
  by (simp add: ginv_def new_replacer_def ghost0_def)

lemma replay_stamped_replay:
  "replay_stamped s g xs = Inr (s', g') \<Longrightarrow> replay s xs = Inr s'"
  by (induction xs arbitrary: s g) (auto split: sum.splits)

lemma filter_key_id: "f \<notin> key ` set xs \<Longrightarrow> filter (\<lambda>x. key x \<noteq> f) xs = xs"
  by (induction xs) auto


subsection \<open>Claims about the replacer\<close>

lemmas replacer_defs =
  new_replacer_def RecordAccess_def frame_valid_def frame_limit_def IsFull_def
  count_access_def locate_def new_entry_def SetEvictable_def Evict_def Remove_def
  erase_at_def size_dec_def Size_def tracked_def Let_def

text \<open>
  Claim C4. After any sequence of calls of \<^verbatim>\<open>RecordAccess\<close>, \<^verbatim>\<open>SetEvictable\<close>, \<^verbatim>\<open>Remove\<close>
  and \<^verbatim>\<open>Evict\<close> on a fresh replacer, \<^verbatim>\<open>Size()\<close> is the number of tracked records whose
  evictable flag is set. The tracked records are the nodes of the two lists: there is
  exactly one for every key of \<^verbatim>\<open>map_\<close>.
\<close>

theorem Size_counts_evictable:
  assumes "replay (new_replacer n k) ops = Inr s"
  shows "Size s = length (filter evictable (tracked s)) \<and> distinct (map key (tracked s))
    \<and> map_keys s = key ` set (tracked s)"
  using rinv_replay [OF rinv_new assms] by (simp add: rinv_def Size_def)

theorem Size_counts_evictable_witness:
  "replay (new_replacer 7 2)
     [RecordAccessOp 1, RecordAccessOp 2, SetEvictableOp 1 True, RecordAccessOp 1,
      RecordAccessOp 3, SetEvictableOp 3 True, EvictOp, RemoveOp 1, SetEvictableOp 2 True] =
   Inr \<lparr>histroy_list = [\<lparr>key = 2, cnt = 1, evictable = True, is_in_history_list = True\<rparr>],
        cache_list = [], map_keys = {2}, curr_size = 1, replacer_size = 7, k_threshold = 2\<rparr>
   \<and> Size \<lparr>histroy_list = [\<lparr>key = 2, cnt = 1, evictable = True, is_in_history_list = True\<rparr>],
        cache_list = [], map_keys = {2}, curr_size = 1, replacer_size = 7, k_threshold = 2\<rparr> = 1"
proof -
  have h: "replay (new_replacer 7 2)
     [RecordAccessOp 1, RecordAccessOp 2, SetEvictableOp 1 True, RecordAccessOp 1,
      RecordAccessOp 3, SetEvictableOp 3 True, EvictOp, RemoveOp 1, SetEvictableOp 2 True] =
   Inr \<lparr>histroy_list = [\<lparr>key = 2, cnt = 1, evictable = True, is_in_history_list = True\<rparr>],
        cache_list = [], map_keys = {2}, curr_size = 1, replacer_size = 7, k_threshold = 2\<rparr>"
    by (auto simp add: replacer_defs)
  from Size_counts_evictable [OF h] h show ?thesis by (simp add: tracked_def)
qed

text \<open>
  Claim C10. In every state after a sequence of calls on a fresh replacer, and for every
  frame id that passes the range assertion (with fewer than \<open>2 ^ 31\<close> frames these are
  the ids in \<open>[0, N)\<close>, by \<open>frame_valid_small\<close>) and is not tracked, the replacer is not full
  (the evictable count is at most the number of tracked records, which is below the
  number of frames), so \<^verbatim>\<open>RecordAccess\<close> does not drop the access: it returns with the
  frame tracked, by a new record with one access that is not evictable.
\<close>

theorem RecordAccess_untracked_creates:
  assumes "replay (new_replacer n k) ops = Inr s" "frame_valid s f" "f \<notin> map_keys s"
  shows "\<not> IsFull s \<and>
    (\<exists>s'. RecordAccess s f = Inr s' \<and> f \<in> map_keys s' \<and>
       length (tracked s') = length (tracked s) + 1 \<and>
       (\<exists>e \<in> set (tracked s'). key e = f \<and> cnt e = 1 \<and> \<not> evictable e))"
proof -
  have inv: "rinv s" using rinv_replay [OF rinv_new assms(1)] .
  have nf: "\<not> IsFull s" using not_full [OF inv assms(2,3)] .
  show ?thesis using nf
    by (simp add: RecordAccess_new [OF assms(2,3) nf] tracked_def new_entry_def)
qed

theorem RecordAccess_untracked_creates_witness:
  "replay (new_replacer 2 2) [RecordAccessOp 1, SetEvictableOp 1 True] =
     Inr \<lparr>histroy_list = [\<lparr>key = 1, cnt = 1, evictable = True, is_in_history_list = True\<rparr>],
          cache_list = [], map_keys = {1}, curr_size = 1, replacer_size = 2, k_threshold = 2\<rparr>
   \<and> \<not> IsFull \<lparr>histroy_list = [\<lparr>key = 1, cnt = 1, evictable = True, is_in_history_list = True\<rparr>],
          cache_list = [], map_keys = {1}, curr_size = 1, replacer_size = 2, k_threshold = 2\<rparr>
   \<and> (\<exists>s'. RecordAccess \<lparr>histroy_list = [\<lparr>key = 1, cnt = 1, evictable = True, is_in_history_list = True\<rparr>],
          cache_list = [], map_keys = {1}, curr_size = 1, replacer_size = 2, k_threshold = 2\<rparr> 0 = Inr s'
        \<and> 0 \<in> map_keys s')"
proof -
  let ?s = "\<lparr>histroy_list = [\<lparr>key = 1, cnt = 1, evictable = True, is_in_history_list = True\<rparr>],
          cache_list = [], map_keys = {1}, curr_size = 1, replacer_size = 2, k_threshold = 2\<rparr>"
  have h: "replay (new_replacer 2 2) [RecordAccessOp 1, SetEvictableOp 1 True] = Inr ?s"
    by (auto simp add: replacer_defs)
  have v: "frame_valid ?s 0" by (simp add: frame_valid_def frame_limit_def)
  have u: "0 \<notin> map_keys ?s" by simp
  from RecordAccess_untracked_creates [OF h v u] h show ?thesis by blast
qed

text \<open>
  Claim C7. In every state after a sequence of calls on a fresh replacer, \<^verbatim>\<open>RecordAccess\<close>
  on the key of a tracked record \<open>e\<close> returns, and the new state differs from the old one
  as follows. If \<open>e\<close> is in the history list (at any position, between \<open>ys\<close> and \<open>zs\<close>)
  and its incremented count is below \<open>k\<close>, the record keeps its position with the
  count incremented; otherwise the incremented count equals \<open>k\<close>, the record leaves the
  history list and is the new front of the cache list with the count incremented and
  \<open>is_in_history_list\<close> false. If \<open>e\<close> is in the cache list, it moves to the front of the
  cache list with the count incremented. Nothing else changes.
\<close>

theorem RecordAccess_tracked:
  assumes "replay (new_replacer n k) ops = Inr s"
  shows "(histroy_list s = ys @ e # zs \<longrightarrow>
            RecordAccess s (key e) =
              Inr (if cnt e + 1 < k_threshold s
                   then s\<lparr>histroy_list := ys @ e\<lparr>cnt := cnt e + 1\<rparr> # zs\<rparr>
                   else s\<lparr>histroy_list := ys @ zs,
                          cache_list := e\<lparr>cnt := cnt e + 1, is_in_history_list := False\<rparr> # cache_list s\<rparr>)
            \<and> cnt e + 1 \<le> k_threshold s) \<and>
         (cache_list s = ys @ e # zs \<longrightarrow>
            RecordAccess s (key e) =
              Inr (s\<lparr>cache_list := e\<lparr>cnt := cnt e + 1, is_in_history_list := False\<rparr> # ys @ zs\<rparr>)
            \<and> \<not> is_in_history_list e)"
proof -
  have inv: "rinv s" using rinv_replay [OF rinv_new assms] .
  have "\<not> is_in_history_list e" if "cache_list s = ys @ e # zs"
    using inv that by (simp add: rinv_def)
  then show ?thesis
    using RecordAccess_tracked_history [OF inv] RecordAccess_tracked_cache [OF inv]
    by blast
qed

theorem RecordAccess_tracked_witness:
  "replay (new_replacer 7 2)
     [RecordAccessOp 1, RecordAccessOp 1, RecordAccessOp 2, RecordAccessOp 3, RecordAccessOp 3] =
   Inr \<lparr>histroy_list = [\<lparr>key = 2, cnt = 1, evictable = False, is_in_history_list = True\<rparr>],
        cache_list = [\<lparr>key = 3, cnt = 2, evictable = False, is_in_history_list = False\<rparr>,
                      \<lparr>key = 1, cnt = 2, evictable = False, is_in_history_list = False\<rparr>],
        map_keys = {1, 2, 3}, curr_size = 0, replacer_size = 7, k_threshold = 2\<rparr>
   \<and> RecordAccess
       \<lparr>histroy_list = [\<lparr>key = 2, cnt = 1, evictable = False, is_in_history_list = True\<rparr>],
        cache_list = [\<lparr>key = 3, cnt = 2, evictable = False, is_in_history_list = False\<rparr>,
                      \<lparr>key = 1, cnt = 2, evictable = False, is_in_history_list = False\<rparr>],
        map_keys = {1, 2, 3}, curr_size = 0, replacer_size = 7, k_threshold = 2\<rparr> 2 =
     Inr \<lparr>histroy_list = [],
        cache_list = [\<lparr>key = 2, cnt = 2, evictable = False, is_in_history_list = False\<rparr>,
                      \<lparr>key = 3, cnt = 2, evictable = False, is_in_history_list = False\<rparr>,
                      \<lparr>key = 1, cnt = 2, evictable = False, is_in_history_list = False\<rparr>],
        map_keys = {1, 2, 3}, curr_size = 0, replacer_size = 7, k_threshold = 2\<rparr>
   \<and> RecordAccess
       \<lparr>histroy_list = [\<lparr>key = 2, cnt = 1, evictable = False, is_in_history_list = True\<rparr>],
        cache_list = [\<lparr>key = 3, cnt = 2, evictable = False, is_in_history_list = False\<rparr>,
                      \<lparr>key = 1, cnt = 2, evictable = False, is_in_history_list = False\<rparr>],
        map_keys = {1, 2, 3}, curr_size = 0, replacer_size = 7, k_threshold = 2\<rparr> 1 =
     Inr \<lparr>histroy_list = [\<lparr>key = 2, cnt = 1, evictable = False, is_in_history_list = True\<rparr>],
        cache_list = [\<lparr>key = 1, cnt = 3, evictable = False, is_in_history_list = False\<rparr>,
                      \<lparr>key = 3, cnt = 2, evictable = False, is_in_history_list = False\<rparr>],
        map_keys = {1, 2, 3}, curr_size = 0, replacer_size = 7, k_threshold = 2\<rparr>"
proof -
  let ?e1 = "\<lparr>key = 1, cnt = 2, evictable = False, is_in_history_list = False\<rparr>"
  let ?e2 = "\<lparr>key = 2, cnt = 1, evictable = False, is_in_history_list = True\<rparr>"
  let ?e3 = "\<lparr>key = 3, cnt = 2, evictable = False, is_in_history_list = False\<rparr>"
  let ?s = "\<lparr>histroy_list = [?e2], cache_list = [?e3, ?e1],
        map_keys = {1, 2, 3}, curr_size = 0, replacer_size = 7, k_threshold = 2\<rparr>"
  have h: "replay (new_replacer 7 2)
     [RecordAccessOp 1, RecordAccessOp 1, RecordAccessOp 2, RecordAccessOp 3, RecordAccessOp 3] = Inr ?s"
    by (auto simp add: replacer_defs)
  have a: "histroy_list ?s = [] @ ?e2 # []" by simp
  have b: "cache_list ?s = [?e3] @ ?e1 # []" by simp
  from RecordAccess_tracked [OF h, of "[]" ?e2 "[]"] a
  have 1: "RecordAccess ?s 2 = Inr (?s\<lparr>histroy_list := [], cache_list := [?e2\<lparr>cnt := 2, is_in_history_list := False\<rparr>, ?e3, ?e1]\<rparr>)"
    by simp
  from RecordAccess_tracked [OF h, of "[?e3]" ?e1 "[]"] b
  have 2: "RecordAccess ?s 1 = Inr (?s\<lparr>cache_list := [?e1\<lparr>cnt := 3\<rparr>, ?e3]\<rparr>)"
    by simp
  from h 1 2 show ?thesis by simp
qed

text \<open>
  Claim C1. In every state after a sequence of calls on a fresh replacer, \<^verbatim>\<open>Evict\<close>
  returns nothing, and changes nothing, when no tracked record is evictable. Otherwise
  it returns the key of an evictable record \<open>e\<close>: if the history list has an evictable
  record, \<open>e\<close> is the evictable record of the history list that was created first;
  if not, \<open>e\<close> is the evictable record of the cache list whose latest access is the
  oldest. The record is removed from its list and from \<^verbatim>\<open>map_\<close>, and \<open>curr_size\<close>, which
  was positive, decreases by one.
\<close>

theorem Evict_selects_oldest:
  assumes "replay_stamped (new_replacer n k) ghost0 ops = Inr (s, g)"
  shows "case Evict s of
      (None, s') \<Rightarrow> s' = s \<and> (\<forall>x \<in> set (tracked s). \<not> evictable x)
    | (Some f, s') \<Rightarrow>
        (\<exists>e \<in> set (tracked s). key e = f \<and> evictable e \<and>
           (if \<exists>x \<in> set (histroy_list s). evictable x
            then e \<in> set (histroy_list s) \<and>
                 (\<forall>x \<in> set (histroy_list s). evictable x \<longrightarrow>
                    first_access g (key e) \<le> first_access g (key x))
            else e \<in> set (cache_list s) \<and>
                 (\<forall>x \<in> set (cache_list s). evictable x \<longrightarrow>
                    last_access g (key e) \<le> last_access g (key x)))) \<and>
        s' = s\<lparr>histroy_list := filter (\<lambda>x. key x \<noteq> f) (histroy_list s),
               cache_list := filter (\<lambda>x. key x \<noteq> f) (cache_list s),
               map_keys := map_keys s - {f},
               curr_size := curr_size s - 1\<rparr> \<and>
        0 < curr_size s"
proof -
  from ginv_replay [OF rinv_new ginv_new assms] have inv: "rinv s" and g: "ginv s g" by simp_all
  show ?thesis
  proof (cases s rule: Evict_cases)
    case (history ys e zs)
    from inv history(1) have d: "key e \<notin> key ` set ys" "key e \<notin> key ` set zs"
      "key e \<notin> key ` set (cache_list s)"
      by (auto simp: rinv_def tracked_def)
    from inv history(1,2) have c: "0 < curr_size s" by (simp add: rinv_def tracked_def)
    from g history(1) have "\<forall>x \<in> set ys. first_access g (key e) < first_access g (key x)"
      by (auto simp: ginv_def sorted_wrt_append)
    with history(3) have o: "\<forall>x \<in> set (histroy_list s). evictable x \<longrightarrow>
                    first_access g (key e) \<le> first_access g (key x)"
      by (auto simp: history(1) less_imp_le)
    have e: "e \<in> set (tracked s)" "e \<in> set (histroy_list s)" by (simp_all add: tracked_def history(1))
    have ex: "\<exists>x \<in> set (histroy_list s). evictable x" using history(1,2) by auto
    have "size_dec (curr_size s) = curr_size s - 1" using c by (simp add: size_dec_def)
    then have s': "s\<lparr>histroy_list := ys @ zs, map_keys := map_keys s - {key e}, curr_size := size_dec (curr_size s)\<rparr>
      = s\<lparr>histroy_list := filter (\<lambda>x. key x \<noteq> key e) (histroy_list s),
               cache_list := filter (\<lambda>x. key x \<noteq> key e) (cache_list s),
               map_keys := map_keys s - {key e},
               curr_size := curr_size s - 1\<rparr>"
      by (simp add: history(1) filter_key_id d)
    show ?thesis unfolding history(4) using e ex o c history(2) s' by auto
  next
    case (cache ys e zs)
    from inv cache(1) have d: "key e \<notin> key ` set ys" "key e \<notin> key ` set zs"
      "key e \<notin> key ` set (histroy_list s)"
      by (auto simp: rinv_def tracked_def)
    from inv cache(1,2) have c: "0 < curr_size s" by (simp add: rinv_def tracked_def)
    from g cache(1) have "\<forall>x \<in> set ys. last_access g (key e) < last_access g (key x)"
      by (auto simp: ginv_def sorted_wrt_append)
    with cache(3) have o: "\<forall>x \<in> set (cache_list s). evictable x \<longrightarrow>
                    last_access g (key e) \<le> last_access g (key x)"
      by (auto simp: cache(1) less_imp_le)
    have e: "e \<in> set (tracked s)" "e \<in> set (cache_list s)" by (simp_all add: tracked_def cache(1))
    have ex: "\<not> (\<exists>x \<in> set (histroy_list s). evictable x)" using cache(4) by auto
    have "size_dec (curr_size s) = curr_size s - 1" using c by (simp add: size_dec_def)
    then have s': "s\<lparr>cache_list := ys @ zs, map_keys := map_keys s - {key e}, curr_size := size_dec (curr_size s)\<rparr>
      = s\<lparr>histroy_list := filter (\<lambda>x. key x \<noteq> key e) (histroy_list s),
               cache_list := filter (\<lambda>x. key x \<noteq> key e) (cache_list s),
               map_keys := map_keys s - {key e},
               curr_size := curr_size s - 1\<rparr>"
      by (simp add: cache(1) filter_key_id d)
    show ?thesis unfolding cache(5) using e ex o c cache(2) s' by auto
  next
    case no_victim
    then show ?thesis by simp
  qed
qed

theorem Evict_selects_oldest_witness:
  "\<exists>s g. replay_stamped (new_replacer 7 2) ghost0
       [RecordAccessOp 1, RecordAccessOp 2, RecordAccessOp 3, SetEvictableOp 1 True,
        SetEvictableOp 2 True, SetEvictableOp 3 True, RecordAccessOp 1] = Inr (s, g)
     \<and> fst (Evict s) = Some 2
     \<and> first_access g 2 = 1 \<and> first_access g 3 = 2
     \<and> (\<exists>e \<in> set (histroy_list s). key e = 2 \<and> evictable e \<and>
           (\<forall>x \<in> set (histroy_list s). evictable x \<longrightarrow>
                first_access g (key e) \<le> first_access g (key x)))"
proof -
  let ?ops = "[RecordAccessOp 1, RecordAccessOp 2, RecordAccessOp 3, SetEvictableOp 1 True,
        SetEvictableOp 2 True, SetEvictableOp 3 True, RecordAccessOp 1]"
  let ?s = "\<lparr>histroy_list = [\<lparr>key = 3, cnt = 1, evictable = True, is_in_history_list = True\<rparr>,
                        \<lparr>key = 2, cnt = 1, evictable = True, is_in_history_list = True\<rparr>],
        cache_list = [\<lparr>key = 1, cnt = 2, evictable = True, is_in_history_list = False\<rparr>],
        map_keys = {1, 2, 3}, curr_size = 3, replacer_size = 7, k_threshold = 2\<rparr>"
  have "\<exists>g. replay_stamped (new_replacer 7 2) ghost0 ?ops = Inr (?s, g)
     \<and> first_access g 2 = 1 \<and> first_access g 3 = 2"
    by (simp add: replacer_defs stamp_def ghost0_def insert_commute)
  then obtain g where h: "replay_stamped (new_replacer 7 2) ghost0 ?ops = Inr (?s, g)"
    and t: "first_access g 2 = 1" "first_access g 3 = 2" by blast
  have e: "Evict ?s = (Some 2, \<lparr>histroy_list = [\<lparr>key = 3, cnt = 1, evictable = True, is_in_history_list = True\<rparr>],
        cache_list = [\<lparr>key = 1, cnt = 2, evictable = True, is_in_history_list = False\<rparr>],
      map_keys = {1, 3}, curr_size = 2, replacer_size = 7, k_threshold = 2\<rparr>)"
    by (auto simp add: replacer_defs)
  note T = Evict_selects_oldest [OF h, unfolded e prod.case option.case]
  from T t have "\<exists>e \<in> set (histroy_list ?s). key e = 2 \<and> evictable e \<and>
           (\<forall>x \<in> set (histroy_list ?s). evictable x \<longrightarrow>
                first_access g (key e) \<le> first_access g (key x))"
    by simp
  with h t e show ?thesis
    by (intro exI [of _ ?s] exI [of _ g] conjI) (simp_all only: fst_conv)
qed

subsection \<open>The latch discipline of the replacer\<close>

lemma Evict_call_guarded: "unguarded (snd (Evict_call l)) = unguarded l"
  by (simp add: Evict_call_def lock_guard_def unlock_def member_access_def Let_def
      split: prod.splits)

lemma SetEvictable_call_guarded:
  "SetEvictable_call l f b = Inr l' \<Longrightarrow> unguarded l' = unguarded l"
  by (auto simp: SetEvictable_call_def lock_guard_def unlock_def member_access_def Let_def
      split: sum.splits)

text \<open>
  Claim C9. The claim: every public operation of each component, the replacer's \<^verbatim>\<open>Size\<close>
  included, holds the component's mutex for its entire duration. \<^verbatim>\<open>Size\<close> reads
  \<open>curr_size\<close> without the latch: on a fresh replacer, whose mutex is free, the call
  returns 0 after an access to a member that no latch guards, whereas \<^verbatim>\<open>Evict\<close> on the
  same replacer makes none.
\<close>

theorem Size_call_unguarded:
  "Size_call (new_latched 7 2) =
     (0, \<lparr>latch_held = False, unguarded = True, inner = new_replacer 7 2\<rparr>)
   \<and> \<not> unguarded (snd (Evict_call (new_latched 7 2)))"
  by (simp add: Size_call_def Evict_call_def new_latched_def member_access_def lock_guard_def
      unlock_def Size_def Evict_def new_replacer_def)

section \<open>Properties of the extendible hash table\<close>

subsection \<open>Masks, bits and the lookup of a key\<close>

lemma take_bit_to_size_t: "take_bit 32 (to_size_t w) = unat w"
  unfolding to_size_t_def
proof (rule bit_eqI)
  fix n :: nat
  show "bit (take_bit 32 (unat (scast w :: 64 word))) n = bit (unat w) n"
  proof (cases "n < 32")
    case True
    then have "min 31 n = n" by simp
    with True show ?thesis by (simp add: bit_simps)
  next
    case False
    then have "\<not> bit w n" by (auto dest: bit_imp_le_length)
    with False show ?thesis by (simp add: bit_simps)
  qed
qed

lemma shl_int_minus_1: "shl_int k - 1 = mask (k mod 32)"
  by (simp add: shl_int_def mask_eq_exp_minus_1)

lemma to_size_t_mask: "m < 32 \<Longrightarrow> to_size_t (mask m) = mask m"
  unfolding to_size_t_def
  by (rule bit_eqI) (auto simp add: bit_simps)

lemma to_size_t_mask_int: "to_size_t (shl_int k - 1) = mask (k mod 32)"
  by (simp only: shl_int_minus_1) (simp add: to_size_t_mask)

lemma IndexOf_mod32: "IndexOf h t k = h k mod 2 ^ (global_depth t mod 32)"
  by (simp only: IndexOf_def Let_def to_size_t_mask_int take_bit_eq_mask [symmetric] take_bit_eq_mod)

lemma GetLowKBit_take_bit: "GetLowKBit k n = word_of_nat (take_bit (k mod 32) n)"
  by (simp only: GetLowKBit_def to_int_def to_size_t_mask_int take_bit_eq_mask [symmetric])

lemma unat_GetLowKBit: "unat (GetLowKBit k n) = n mod 2 ^ (k mod 32)"
proof -
  have "take_bit (k mod 32) n < 2 ^ (k mod 32)" by simp
  also have "(2::nat) ^ (k mod 32) \<le> 2 ^ 32" by (rule power_increasing) simp_all
  finally have "take_bit (k mod 32) n < 2 ^ LENGTH(32)" by simp
  then show ?thesis
    by (simp add: GetLowKBit_take_bit unat_of_nat take_bit_eq_mod)
qed

lemma GetLowKBit_eq_iff32:
  "GetLowKBit k n = GetLowKBit k n' \<longleftrightarrow> n mod 2 ^ (k mod 32) = n' mod 2 ^ (k mod 32)"
proof
  assume "GetLowKBit k n = GetLowKBit k n'"
  then have "unat (GetLowKBit k n) = unat (GetLowKBit k n')" by simp
  then show "n mod 2 ^ (k mod 32) = n' mod 2 ^ (k mod 32)" by (simp only: unat_GetLowKBit)
next
  assume "n mod 2 ^ (k mod 32) = n' mod 2 ^ (k mod 32)"
  then show "GetLowKBit k n = GetLowKBit k n'"
    by (simp only: GetLowKBit_take_bit take_bit_eq_mod)
qed

lemma TestKBit_bit32: "TestKBit k n \<noteq> 0 \<longleftrightarrow> bit n (k mod 32)"
proof -
  have "TestKBit k n \<noteq> 0 \<longleftrightarrow> take_bit 32 (n AND to_size_t (shl_int k)) \<noteq> 0"
    by (simp add: TestKBit_def to_int_def word_of_nat_eq_0_iff take_bit_eq_mod dvd_eq_mod_eq_0 del: take_bit_and)
  also have "take_bit 32 (n AND to_size_t (shl_int k)) = take_bit 32 n AND unat (shl_int k)"
    by (simp only: take_bit_and take_bit_to_size_t)
  also have "unat (shl_int k) = 2 ^ (k mod 32)"
  proof -
    have "(2::nat) ^ (k mod 32) < 2 ^ 32" by (rule power_strict_increasing) simp_all
    moreover have "unat (2 ^ (k mod 32) :: 32 word) = unat (word_of_nat (2 ^ (k mod 32)) :: 32 word)"
      by simp
    ultimately show ?thesis
      by (simp only: shl_int_def push_bit_eq_mult mult_1_right unat_of_nat) simp

  qed
  also have "take_bit 32 n AND 2 ^ (k mod 32) \<noteq> 0 \<longleftrightarrow> bit (take_bit 32 n) (k mod 32)"
    by (simp add: and_exp_eq_0_iff_not_bit)
  also have "\<dots> \<longleftrightarrow> bit n (k mod 32)"
    by (simp add: bit_take_bit_iff)
  finally show ?thesis .
qed

lemma TestKBit_zero32: "TestKBit k n = 0 \<longleftrightarrow> \<not> bit n (k mod 32)"
  using TestKBit_bit32 [of k n] by blast

lemma mod32_small: "d \<le> 31 \<Longrightarrow> d mod 32 = (d::nat)"
  by simp

lemma IndexOf_mod: "global_depth t \<le> 31 \<Longrightarrow> IndexOf h t k = h k mod 2 ^ global_depth t"
  by (simp add: IndexOf_mod32)

lemma TestKBit_bit: "d \<le> 31 \<Longrightarrow> TestKBit d n \<noteq> 0 \<longleftrightarrow> bit n d"
  by (simp add: TestKBit_bit32)

lemma TestKBit_zero: "d \<le> 31 \<Longrightarrow> TestKBit d n = 0 \<longleftrightarrow> \<not> bit n d"
  by (simp add: TestKBit_zero32)

lemma GetLowKBit_eq_iff:
  "d \<le> 31 \<Longrightarrow> GetLowKBit d n = GetLowKBit d n' \<longleftrightarrow> n mod 2 ^ d = n' mod 2 ^ d"
  by (simp add: GetLowKBit_eq_iff32)

lemma mod_Suc_pow2: "(i::nat) mod 2 ^ Suc d = i mod 2 ^ d + (if bit i d then 2 ^ d else 0)"
  using take_bit_Suc_from_most [of d i] by (simp add: take_bit_eq_mod)

lemma mod_Suc_pow2_eq_iff:
  "(i::nat) mod 2 ^ Suc d = j mod 2 ^ Suc d \<longleftrightarrow>
     i mod 2 ^ d = j mod 2 ^ d \<and> (bit i d \<longleftrightarrow> bit j d)"
proof -
  define a b c where "a = i mod 2 ^ d" and "b = j mod 2 ^ d" and "c = (2::nat) ^ d"
  have "a < c" "b < c" by (simp_all add: a_def b_def c_def)
  then have "a + (if bit i d then c else 0) = b + (if bit j d then c else 0) \<longleftrightarrow>
     a = b \<and> (bit i d \<longleftrightarrow> bit j d)" by auto
  then show ?thesis
    unfolding mod_Suc_pow2 [of i d] mod_Suc_pow2 [of j d] a_def b_def c_def .
qed

lemma mod_double_pow2_eq_iff:
  "(i::nat) mod (2 * 2 ^ d) = j mod (2 * 2 ^ d) \<longleftrightarrow>
     i mod 2 ^ d = j mod 2 ^ d \<and> (bit i d \<longleftrightarrow> bit j d)"
  using mod_Suc_pow2_eq_iff [of i d j] by simp

lemma mod_pow2_mod_pow2: "d \<le> g \<Longrightarrow> (i::nat) mod 2 ^ g mod 2 ^ d = i mod 2 ^ d"
  by (simp add: mod_mod_cancel le_imp_power_dvd)

lemma bit_below_pow2: "(x::nat) < 2 ^ d \<Longrightarrow> \<not> bit x d"
  by (simp add: bit_iff_odd)

lemma bit_add_pow2:
  assumes "(x::nat) < 2 ^ d"
  shows "bit (x + 2 ^ d) d"
proof -
  have "(x + 2 ^ d) div 2 ^ d = x div 2 ^ d + 1" by (simp add: div_add_self2)
  with assms show ?thesis by (simp add: bit_iff_odd)
qed

lemma bit_mod_pow2: "d < g \<Longrightarrow> bit ((i::nat) mod 2 ^ g) d = bit i d"
  by (simp add: bit_take_bit_iff flip: take_bit_eq_mod)

lemma FindKeyPos_None: "FindKeyPos k ps = None \<longleftrightarrow> k \<notin> fst ` set ps"
  by (induction ps) auto

lemma FindKeyPos_Some:
  "FindKeyPos k ps = Some i \<Longrightarrow>
     \<exists>xs v ys. ps = xs @ (k, v) # ys \<and> length xs = i \<and> k \<notin> fst ` set xs"
proof (induction ps arbitrary: i)
  case Nil
  then show ?case by simp
next
  case (Cons p ps)
  show ?case
  proof (cases "fst p = k")
    case True
    with Cons.prems have "i = 0" by simp
    with True show ?thesis by (intro exI [of _ "[]"] exI [of _ "snd p"] exI [of _ ps]) auto
  next
    case False
    with Cons.prems obtain j where j: "FindKeyPos k ps = Some j" "i = Suc j" by auto
    from Cons.IH [OF j(1)] obtain xs v ys where
      "ps = xs @ (k, v) # ys" "length xs = j" "k \<notin> fst ` set xs" by blast
    with False j(2) show ?thesis
      by (intro exI [of _ "p # xs"] exI [of _ v] exI [of _ ys]) auto
  qed
qed

lemma map_of_append_notin: "k \<notin> fst ` set xs \<Longrightarrow> map_of (xs @ ys) k = map_of ys k"
  by (induction xs) auto

lemma Bucket_Find_map_of: "Bucket_Find k b = map_of (list_b b) k"
proof (cases "FindKeyPos k (list_b b)")
  case None
  then have "k \<notin> fst ` set (list_b b)" by (simp add: FindKeyPos_None)
  then have "map_of (list_b b) k = None" by (simp add: map_of_eq_None_iff)
  with None show ?thesis by (simp add: Bucket_Find_def)
next
  case (Some i)
  from FindKeyPos_Some [OF Some] obtain xs v ys where
    d: "list_b b = xs @ (k, v) # ys" "length xs = i" "k \<notin> fst ` set xs" by blast
  then have "map_of (list_b b) k = Some v" by (simp add: map_of_append_notin del: map_of_append)
  moreover have "list_b b ! i = (k, v)" using d by (simp add: nth_append)
  ultimately show ?thesis using Some by (simp add: Bucket_Find_def)
qed

subsection \<open>Buckets and the two loops of RedistributeBucket\<close>

lemma Bucket_Insert_absent:
  assumes "k \<notin> fst ` set (list_b b)"
  shows "Bucket_Insert k v b =
    (if Bucket_IsFull b then (False, b) else (True, b\<lparr>list_b := (k, v) # list_b b\<rparr>))"
  using assms by (simp add: Bucket_Insert_def FindKeyPos_None [symmetric])

lemma map_of_replace:
  assumes "k \<notin> fst ` set xs"
  shows "map_of (xs @ (k, v) # ys) = (map_of (xs @ (k, w) # ys))(k \<mapsto> v)"
proof
  fix x
  show "map_of (xs @ (k, v) # ys) x = ((map_of (xs @ (k, w) # ys))(k \<mapsto> v)) x"
    using assms by (induction xs) auto
qed

lemma Bucket_Insert_present:
  assumes "k \<in> fst ` set (list_b b)"
  shows "\<exists>l. Bucket_Insert k v b = (True, b\<lparr>list_b := l\<rparr>) \<and> map fst l = map fst (list_b b)
    \<and> map_of l = (map_of (list_b b))(k \<mapsto> v)"
proof -
  from assms obtain i where i: "FindKeyPos k (list_b b) = Some i"
    using FindKeyPos_None [of k "list_b b"] by (cases "FindKeyPos k (list_b b)") auto
  from FindKeyPos_Some [OF i] obtain xs w ys where
    d: "list_b b = xs @ (k, w) # ys" "length xs = i" "k \<notin> fst ` set xs" by blast
  have n: "list_b b ! i = (k, w)" using d by (simp add: nth_append)
  have u: "(list_b b)[i := (k, v)] = xs @ (k, v) # ys"
    using d(2) by (simp add: d(1) list_update_append)
  have "Bucket_Insert k v b = (True, b\<lparr>list_b := xs @ (k, v) # ys\<rparr>)"
    using i n u by (simp add: Bucket_Insert_def)
  moreover have "map fst (xs @ (k, v) # ys) = map fst (list_b b)" by (simp add: d(1))
  moreover have "map_of (xs @ (k, v) # ys) = (map_of (list_b b))(k \<mapsto> v)"
    unfolding d(1) by (rule map_of_replace [OF d(3)])
  ultimately show ?thesis by blast
qed

lemma map_of_erase:
  assumes "k \<notin> fst ` set xs" "k \<notin> fst ` set ys"
  shows "map_of (xs @ ys) = (map_of (xs @ (k, w) # ys))(k := None)"
proof
  fix x
  show "map_of (xs @ ys) x = ((map_of (xs @ (k, w) # ys))(k := None)) x"
    using assms by (induction xs) (auto simp: map_of_eq_None_iff)
qed

lemma Bucket_Remove_absent:
  assumes "k \<notin> fst ` set (list_b b)"
  shows "Bucket_Remove k b = (False, b)"
  using assms by (simp add: Bucket_Remove_def FindKeyPos_None [symmetric])

lemma Bucket_Remove_present:
  assumes "k \<in> fst ` set (list_b b)" "distinct (map fst (list_b b))"
  shows "\<exists>l. Bucket_Remove k b = (True, b\<lparr>list_b := l\<rparr>) \<and> set l \<subseteq> set (list_b b)
    \<and> distinct (map fst l) \<and> length l \<le> length (list_b b)
    \<and> map_of l = (map_of (list_b b))(k := None)"
proof -
  from assms obtain i where i: "FindKeyPos k (list_b b) = Some i"
    using FindKeyPos_None [of k "list_b b"] by (cases "FindKeyPos k (list_b b)") auto
  from FindKeyPos_Some [OF i] obtain xs w ys where
    d: "list_b b = xs @ (k, w) # ys" "length xs = i" "k \<notin> fst ` set xs" by blast
  from assms(2) have k: "k \<notin> fst ` set ys" by (auto simp: d(1))
  have u: "erase_at i (list_b b) = xs @ ys"
    using d(2) by (simp add: d(1) erase_at_def)
  have "Bucket_Remove k b = (True, b\<lparr>list_b := xs @ ys\<rparr>)"
    using i u by (simp add: Bucket_Remove_def)
  moreover have "set (xs @ ys) \<subseteq> set (list_b b)" by (auto simp: d(1))
  moreover have "distinct (map fst (xs @ ys))" using assms(2) by (auto simp: d(1))
  moreover have "length (xs @ ys) \<le> length (list_b b)" by (simp add: d(1))
  moreover have "map_of (xs @ ys) = (map_of (list_b b))(k := None)"
    unfolding d(1) by (rule map_of_erase [OF d(3) k])
  ultimately show ?thesis by blast
qed

lemma move_items_eq32:
  assumes "distinct (map fst ps)" "fst ` set ps \<inter> fst ` set (list_b nb) = {}"
    "length ps + length (list_b nb) \<le> size_b nb" "e mod 32 = d"
  shows "move_items h e ps nb =
    Inr (filter (\<lambda>p. \<not> bit (h (fst p)) d) ps,
         nb\<lparr>list_b := rev (filter (\<lambda>p. bit (h (fst p)) d) ps) @ list_b nb\<rparr>)"
  using assms(1-3)
proof (induction ps arbitrary: nb)
  case Nil
  then show ?case by simp
next
  case (Cons p ps)
  note e = assms(4)
  show ?case
  proof (cases "bit (h (fst p)) d")
    case True
    from Cons.prems have nf: "\<not> Bucket_IsFull nb" by (simp add: Bucket_IsFull_def)
    from Cons.prems have ab: "fst p \<notin> fst ` set (list_b nb)" by auto
    let ?nb = "nb\<lparr>list_b := p # list_b nb\<rparr>"
    have ins: "snd (Bucket_Insert (fst p) (snd p) nb) = ?nb"
      using nf by (simp add: Bucket_Insert_absent [OF ab])
    from True have tk: "TestKBit e (h (fst p)) \<noteq> 0" by (simp add: TestKBit_bit32 e)
    have "move_items h e ps ?nb =
      Inr (filter (\<lambda>p. \<not> bit (h (fst p)) d) ps,
           ?nb\<lparr>list_b := rev (filter (\<lambda>p. bit (h (fst p)) d) ps) @ list_b ?nb\<rparr>)"
      using Cons.prems by (intro Cons.IH) auto
    then show ?thesis using True nf ins tk by simp
  next
    case False
    then have tk: "TestKBit e (h (fst p)) = 0" by (simp add: TestKBit_zero32 e)
    have "move_items h e ps nb =
      Inr (filter (\<lambda>p. \<not> bit (h (fst p)) d) ps,
           nb\<lparr>list_b := rev (filter (\<lambda>p. bit (h (fst p)) d) ps) @ list_b nb\<rparr>)"
      using Cons.prems by (intro Cons.IH) auto
    then show ?thesis using False tk by simp
  qed
qed

lemma move_items_eq:
  assumes "distinct (map fst ps)" "fst ` set ps \<inter> fst ` set (list_b nb) = {}"
    "length ps + length (list_b nb) \<le> size_b nb" "d \<le> 31"
  shows "move_items h d ps nb =
    Inr (filter (\<lambda>p. \<not> bit (h (fst p)) d) ps,
         nb\<lparr>list_b := rev (filter (\<lambda>p. bit (h (fst p)) d) ps) @ list_b nb\<rparr>)"
  using assms(4) by (intro move_items_eq32 assms(1-3)) simp

lemma move_items_stay:
  assumes "\<forall>p \<in> set ps. TestKBit e (h (fst p)) = 0"
  shows "move_items h e ps nb = Inr (ps, nb)"
  using assms by (induction ps) simp_all

lemma length_redirect [simp]: "length (redirect d s a' xs) = length xs"
  by (simp add: redirect_def)

lemma nth_redirect32:
  "i < length xs \<Longrightarrow>
     redirect e s a' xs ! i = (if TestKBit e i \<noteq> 0 \<and> GetLowKBit e i = s then a' else xs ! i)"
  by (simp add: redirect_def nth_enumerate_eq)

lemma nth_redirect:
  "i < length xs \<Longrightarrow> d \<le> 31 \<Longrightarrow>
     redirect d (GetLowKBit d s) a' xs ! i = (if bit i d \<and> i mod 2 ^ d = s mod 2 ^ d then a' else xs ! i)"
  by (simp add: nth_redirect32 TestKBit_bit GetLowKBit_eq_iff)

lemma map_of_filter_distinct:
  assumes "distinct (map fst ps)" "\<forall>p \<in> set ps. fst p = k \<longrightarrow> P p"
  shows "map_of (filter P ps) k = map_of ps k"
  using assms by (induction ps) (auto simp: map_of_eq_None_iff image_iff)

lemma map_of_rev_distinct:
  assumes "distinct (map fst ps)"
  shows "map_of (rev ps) = map_of ps"
  by (metis assms distinct_rev map_of_inject_set rev_map set_rev)

subsection \<open>The invariant, the content and the doubling\<close>

lemma tinvI:
  assumes "length (dir t) = 2 ^ global_depth t" "num_buckets t = length (heap t)"
    "\<And>i. i < length (dir t) \<Longrightarrow> dir t ! i < length (heap t)"
    "\<And>a. a < length (heap t) \<Longrightarrow> \<exists>i < length (dir t). dir t ! i = a"
    "\<And>i. i < length (dir t) \<Longrightarrow> depth (heap t ! (dir t ! i)) \<le> global_depth t"
    "\<And>i j. i < length (dir t) \<Longrightarrow> j < length (dir t) \<Longrightarrow>
       dir t ! i = dir t ! j \<longleftrightarrow>
       i mod 2 ^ depth (heap t ! (dir t ! i)) = j mod 2 ^ depth (heap t ! (dir t ! i))"
    "\<And>i p. i < length (dir t) \<Longrightarrow> p \<in> set (list_b (heap t ! (dir t ! i))) \<Longrightarrow>
       h (fst p) mod 2 ^ depth (heap t ! (dir t ! i)) = i mod 2 ^ depth (heap t ! (dir t ! i))"
    "\<And>a. a < length (heap t) \<Longrightarrow> distinct (map fst (list_b (heap t ! a)))"
    "\<And>a. a < length (heap t) \<Longrightarrow> length (list_b (heap t ! a)) \<le> size_b (heap t ! a)"
    "\<And>a. a < length (heap t) \<Longrightarrow> size_b (heap t ! a) = bucket_size t"
  shows "tinv h t"
  unfolding tinv_def using assms by blast

lemma tinv_length: "tinv h t \<Longrightarrow> length (dir t) = 2 ^ global_depth t"
  and tinv_num: "tinv h t \<Longrightarrow> num_buckets t = length (heap t)"
  and tinv_addr: "tinv h t \<Longrightarrow> i < length (dir t) \<Longrightarrow> dir t ! i < length (heap t)"
  and tinv_ref: "tinv h t \<Longrightarrow> a < length (heap t) \<Longrightarrow> \<exists>i < length (dir t). dir t ! i = a"
  and tinv_depth: "tinv h t \<Longrightarrow> i < length (dir t) \<Longrightarrow> depth (heap t ! (dir t ! i)) \<le> global_depth t"
  and tinv_share: "tinv h t \<Longrightarrow> i < length (dir t) \<Longrightarrow> j < length (dir t) \<Longrightarrow>
       dir t ! i = dir t ! j \<longleftrightarrow>
       i mod 2 ^ depth (heap t ! (dir t ! i)) = j mod 2 ^ depth (heap t ! (dir t ! i))"
  and tinv_mask: "tinv h t \<Longrightarrow> i < length (dir t) \<Longrightarrow> p \<in> set (list_b (heap t ! (dir t ! i))) \<Longrightarrow>
       h (fst p) mod 2 ^ depth (heap t ! (dir t ! i)) = i mod 2 ^ depth (heap t ! (dir t ! i))"
  and tinv_distinct: "tinv h t \<Longrightarrow> a < length (heap t) \<Longrightarrow> distinct (map fst (list_b (heap t ! a)))"
  and tinv_fill: "tinv h t \<Longrightarrow> a < length (heap t) \<Longrightarrow> length (list_b (heap t ! a)) \<le> size_b (heap t ! a)"
  and tinv_size: "tinv h t \<Longrightarrow> a < length (heap t) \<Longrightarrow> size_b (heap t ! a) = bucket_size t"
  unfolding tinv_def by blast+

lemma slot_in_range: "tinv h t \<Longrightarrow> h k mod 2 ^ global_depth t < length (dir t)"
  by (simp add: tinv_length)

lemma slot_bucket_ok:
  assumes "tinv h t" "global_depth t \<le> 31"
  shows "slot_bucket t (IndexOf h t k) = Inr (dir t ! (h k mod 2 ^ global_depth t))"
  using slot_in_range [OF assms(1), of k] tinv_addr [OF assms(1), of "h k mod 2 ^ global_depth t"]
  by (simp add: slot_bucket_def IndexOf_mod [OF assms(2)])

lemma Find_content:
  "tinv h t \<Longrightarrow> global_depth t \<le> 31 \<Longrightarrow> Find h t k = Inr (content h t k)"
  by (simp add: Find_def slot_bucket_ok Bucket_Find_map_of content_def)

lemma tinv_new: "new_table c = Inr t \<Longrightarrow> tinv h t"
  by (auto simp: new_table_def tinv_def new_bucket_def)

lemma content_new: "new_table c = Inr t \<Longrightarrow> content h t k = None"
  by (auto simp: new_table_def content_def new_bucket_def)

lemma nth_double:
  assumes "i < 2 * length xs"
  shows "(xs @ xs) ! i = xs ! (i mod length xs)"
proof (cases "i < length xs")
  case True
  then show ?thesis by (simp add: nth_append)
next
  case False
  with assms have "i mod length xs = i - length xs"
    by (metis le_mod_geq linorder_not_less mod_less mult_2 less_diff_conv2)
  with False show ?thesis by (simp add: nth_append)
qed

lemma tinv_double:
  assumes "tinv h t"
  shows "tinv h (double_dir t)"
proof (rule tinvI)
  let ?t = "double_dir t"
  let ?g = "global_depth t"
  have len: "length (dir t) = 2 ^ ?g" using assms by (rule tinv_length)
  have nth: "dir ?t ! i = dir t ! (i mod 2 ^ ?g)" if "i < length (dir ?t)" for i
    using that nth_double [of i "dir t"] by (simp add: double_dir_def len)
  have lt: "i mod 2 ^ ?g < length (dir t)" for i by (simp add: len)
  have hp [simp]: "heap ?t = heap t" by (simp add: double_dir_def)
  show "length (dir ?t) = 2 ^ global_depth ?t" by (simp add: double_dir_def len)
  show "num_buckets ?t = length (heap ?t)" using tinv_num [OF assms] by (simp add: double_dir_def)
  show "dir ?t ! i < length (heap ?t)" if "i < length (dir ?t)" for i
    using tinv_addr [OF assms lt] nth [OF that] by simp
  show "\<exists>i < length (dir ?t). dir ?t ! i = a" if "a < length (heap ?t)" for a
  proof -
    from tinv_ref [OF assms, of a] that obtain i where i: "i < length (dir t)" "dir t ! i = a" by auto
    then have "i < length (dir ?t)" "dir ?t ! i = a" by (simp_all add: double_dir_def nth_append)
    then show ?thesis by blast
  qed
  show "depth (heap ?t ! (dir ?t ! i)) \<le> global_depth ?t" if "i < length (dir ?t)" for i
    using tinv_depth [OF assms lt, of i] nth [OF that] by (simp add: double_dir_def)
  show "dir ?t ! i = dir ?t ! j \<longleftrightarrow>
       i mod 2 ^ depth (heap ?t ! (dir ?t ! i)) = j mod 2 ^ depth (heap ?t ! (dir ?t ! i))"
    if "i < length (dir ?t)" "j < length (dir ?t)" for i j
  proof -
    let ?d = "depth (heap t ! (dir t ! (i mod 2 ^ ?g)))"
    have "?d \<le> ?g" using tinv_depth [OF assms lt] .
    then have "i mod 2 ^ ?g mod 2 ^ ?d = i mod 2 ^ ?d" "j mod 2 ^ ?g mod 2 ^ ?d = j mod 2 ^ ?d"
      by (simp_all add: mod_pow2_mod_pow2)
    with tinv_share [OF assms lt lt, of i j] show ?thesis
      by (simp add: nth [OF that(1)] nth [OF that(2)])
  qed
  show "h (fst p) mod 2 ^ depth (heap ?t ! (dir ?t ! i)) = i mod 2 ^ depth (heap ?t ! (dir ?t ! i))"
    if "i < length (dir ?t)" "p \<in> set (list_b (heap ?t ! (dir ?t ! i)))" for i p
  proof -
    let ?d = "depth (heap t ! (dir t ! (i mod 2 ^ ?g)))"
    have "?d \<le> ?g" using tinv_depth [OF assms lt] .
    then have "i mod 2 ^ ?g mod 2 ^ ?d = i mod 2 ^ ?d" by (simp add: mod_pow2_mod_pow2)
    with tinv_mask [OF assms lt, of p i] that(2) show ?thesis
      by (simp add: nth [OF that(1)])
  qed
  show "distinct (map fst (list_b (heap ?t ! a)))" if "a < length (heap ?t)" for a
    using tinv_distinct [OF assms, of a] that by simp
  show "length (list_b (heap ?t ! a)) \<le> size_b (heap ?t ! a)" if "a < length (heap ?t)" for a
    using tinv_fill [OF assms, of a] that by simp
  show "size_b (heap ?t ! a) = bucket_size ?t" if "a < length (heap ?t)" for a
    using tinv_size [OF assms, of a] that by (simp add: double_dir_def)
qed

lemma double_dir_slot:
  assumes "tinv h t"
  shows "dir (double_dir t) ! (x mod 2 ^ global_depth (double_dir t)) = dir t ! (x mod 2 ^ global_depth t)"
proof -
  let ?g = "global_depth t"
  have len: "length (dir t) = 2 ^ ?g" using assms by (rule tinv_length)
  have "x mod 2 ^ Suc ?g < 2 * length (dir t)" by (simp add: len)
  from nth_double [OF this] have "(dir t @ dir t) ! (x mod 2 ^ Suc ?g) = dir t ! (x mod 2 ^ Suc ?g mod 2 ^ ?g)"
    by (simp add: len)
  also have "x mod 2 ^ Suc ?g mod 2 ^ ?g = x mod 2 ^ ?g"
    by (rule mod_pow2_mod_pow2) simp
  finally show ?thesis by (simp add: double_dir_def)
qed

lemma content_double: "tinv h t \<Longrightarrow> content h (double_dir t) = content h t"
  by (rule ext) (simp add: content_def double_dir_slot, simp add: double_dir_def)

subsection \<open>The split\<close>

lemma Redistribute_split:
  assumes inv: "tinv h t" and i0: "i0 < length (dir t)" "dir t ! i0 = a"
    and ne: "list_b (heap t ! a) \<noteq> []" and dd: "depth (heap t ! a) \<le> 31"
  shows "RedistributeBucket h t a = Inr (split_table h t a)"
proof -
  let ?b = "heap t ! a"
  let ?d = "depth ?b"
  from ne obtain p ps where ps: "list_b ?b = p # ps" by (cases "list_b ?b") auto
  have a: "a < length (heap t)" using tinv_addr [OF inv i0(1)] i0(2) by simp
  have "p \<in> set (list_b (heap t ! (dir t ! i0)))" using ps i0(2) by simp
  from tinv_mask [OF inv i0(1) this] have low: "GetLowKBit ?d (h (fst p)) = GetLowKBit ?d i0"
    by (simp add: GetLowKBit_eq_iff [OF dd] i0(2))
  have red: "redirect ?d (GetLowKBit ?d i0) (length (heap t)) (dir t) =
    map (\<lambda>(i, x). if x = a \<and> bit i ?d then length (heap t) else x) (enumerate 0 (dir t))"
  proof (rule nth_equalityI)
    show "length (redirect ?d (GetLowKBit ?d i0) (length (heap t)) (dir t)) =
      length (map (\<lambda>(i, x). if x = a \<and> bit i ?d then length (heap t) else x) (enumerate 0 (dir t)))"
      by simp
    fix i assume "i < length (redirect ?d (GetLowKBit ?d i0) (length (heap t)) (dir t))"
    then have i: "i < length (dir t)" by simp
    from tinv_share [OF inv i0(1) i] have "dir t ! i = a \<longleftrightarrow> i mod 2 ^ ?d = i0 mod 2 ^ ?d"
      by (auto simp: i0(2))
    then show "redirect ?d (GetLowKBit ?d i0) (length (heap t)) (dir t) ! i =
      map (\<lambda>(i, x). if x = a \<and> bit i ?d then length (heap t) else x) (enumerate 0 (dir t)) ! i"
      using i by (auto simp: nth_redirect [OF _ dd] nth_enumerate_eq)
  qed
  have "length (list_b ?b) \<le> bucket_size t"
    using tinv_fill [OF inv a] tinv_size [OF inv a] by simp
  then have mv: "move_items h ?d (list_b ?b) (new_bucket (bucket_size t) (?d + 1)) =
    Inr (filter (\<lambda>p. \<not> bit (h (fst p)) ?d) (list_b ?b),
         (new_bucket (bucket_size t) (?d + 1))
           \<lparr>list_b := rev (filter (\<lambda>p. bit (h (fst p)) ?d) (list_b ?b))
              @ list_b (new_bucket (bucket_size t) (?d + 1))\<rparr>)"
    by (intro move_items_eq tinv_distinct [OF inv a] dd) (simp_all add: new_bucket_def)
  show ?thesis
    unfolding RedistributeBucket_def Let_def ps list.case low red
    unfolding ps [symmetric] mv
    by (simp add: split_table_def Let_def new_bucket_def)
qed

lemma split_table_fields:
  "global_depth (split_table h t a) = global_depth t"
  "bucket_size (split_table h t a) = bucket_size t"
  "num_buckets (split_table h t a) = num_buckets t + 1"
  "length (dir (split_table h t a)) = length (dir t)"
  "length (heap (split_table h t a)) = Suc (length (heap t))"
  by (simp_all add: split_table_def Let_def)

lemma split_table_dir:
  "i < length (dir t) \<Longrightarrow>
     dir (split_table h t a) ! i =
       (if dir t ! i = a \<and> bit i (depth (heap t ! a)) then length (heap t) else dir t ! i)"
  by (simp add: split_table_def Let_def nth_enumerate_eq)

lemma split_table_heap_old:
  "a < length (heap t) \<Longrightarrow>
     heap (split_table h t a) ! a =
       (heap t ! a)\<lparr>depth := depth (heap t ! a) + 1,
                    list_b := filter (\<lambda>p. \<not> bit (h (fst p)) (depth (heap t ! a))) (list_b (heap t ! a))\<rparr>"
  by (simp add: split_table_def Let_def nth_append)

lemma split_table_heap_new:
  "heap (split_table h t a) ! length (heap t) =
     \<lparr>size_b = bucket_size t, depth = depth (heap t ! a) + 1,
      list_b = rev (filter (\<lambda>p. bit (h (fst p)) (depth (heap t ! a))) (list_b (heap t ! a)))\<rparr>"
  by (simp add: split_table_def Let_def nth_append)

lemma split_table_heap_other:
  "x < length (heap t) \<Longrightarrow> x \<noteq> a \<Longrightarrow> heap (split_table h t a) ! x = heap t ! x"
  by (simp add: split_table_def Let_def nth_append)

text \<open>The bucket behind slot \<open>i\<close> after the split, in the three cases.\<close>

lemma split_slot_new:
  assumes "i < length (dir t)" "dir t ! i = a" "bit i (depth (heap t ! a))"
  shows "dir (split_table h t a) ! i = length (heap t)"
    and "heap (split_table h t a) ! (dir (split_table h t a) ! i) =
     \<lparr>size_b = bucket_size t, depth = depth (heap t ! a) + 1,
      list_b = rev (filter (\<lambda>p. bit (h (fst p)) (depth (heap t ! a))) (list_b (heap t ! a)))\<rparr>"
  using assms by (simp_all add: split_table_dir split_table_heap_new)

lemma split_slot_old:
  assumes "i < length (dir t)" "dir t ! i = a" "\<not> bit i (depth (heap t ! a))" "a < length (heap t)"
  shows "dir (split_table h t a) ! i = a"
    and "heap (split_table h t a) ! (dir (split_table h t a) ! i) =
       (heap t ! a)\<lparr>depth := depth (heap t ! a) + 1,
                    list_b := filter (\<lambda>p. \<not> bit (h (fst p)) (depth (heap t ! a))) (list_b (heap t ! a))\<rparr>"
  using assms by (simp_all add: split_table_dir split_table_heap_old)

lemma split_slot_other:
  assumes "i < length (dir t)" "dir t ! i \<noteq> a" "dir t ! i < length (heap t)"
  shows "dir (split_table h t a) ! i = dir t ! i"
    and "heap (split_table h t a) ! (dir (split_table h t a) ! i) = heap t ! (dir t ! i)"
  using assms by (simp_all add: split_table_dir split_table_heap_other)

lemma tinv_split:
  assumes inv: "tinv h t" and i0: "i0 < length (dir t)" "dir t ! i0 = a"
    and dg: "depth (heap t ! a) < global_depth t"
  shows "tinv h (split_table h t a)"
proof (rule tinvI)
  let ?t = "split_table h t a"
  let ?d = "depth (heap t ! a)"
  let ?n = "length (heap t)"
  note sf = split_table_fields [of h t a]
  have a: "a < ?n" using tinv_addr [OF inv i0(1)] i0(2) by simp
  have addr: "dir t ! i < ?n" if "i < length (dir t)" for i using tinv_addr [OF inv that] .
  have sig: "dir t ! i = a \<longleftrightarrow> i mod 2 ^ ?d = i0 mod 2 ^ ?d" if "i < length (dir t)" for i
    using tinv_share [OF inv i0(1) that] by (auto simp: i0(2))
  have cases_heap: "x = ?n \<or> x = a \<or> (x < ?n \<and> x \<noteq> a)" if "x < length (heap ?t)" for x
    using that unfolding sf by linarith
  show "length (dir ?t) = 2 ^ global_depth ?t" using tinv_length [OF inv] by (simp add: sf)
  show "num_buckets ?t = length (heap ?t)" using tinv_num [OF inv] by (simp add: sf)
  show "dir ?t ! i < length (heap ?t)" if "i < length (dir ?t)" for i
    using that addr [of i] by (simp add: sf split_table_dir)
  show "\<exists>i < length (dir ?t). dir ?t ! i = x" if "x < length (heap ?t)" for x
  proof -
    let ?lo = "i0 mod 2 ^ ?d"
    have lo_lt: "?lo < 2 ^ ?d" by simp
    have p: "(2::nat) ^ Suc ?d \<le> 2 ^ global_depth t" using dg by (intro power_increasing) auto
    have "\<And>x y z::nat. x < y \<Longrightarrow> 2 * y \<le> z \<Longrightarrow> x < z \<and> x + y < z" by arith
    from this [OF lo_lt, of "2 ^ global_depth t"] p
    have lo_len: "?lo < length (dir t)" "?lo + 2 ^ ?d < length (dir t)"
      unfolding tinv_length [OF inv] by simp_all
    have lo_mod: "?lo mod 2 ^ ?d = ?lo" "(?lo + 2 ^ ?d) mod 2 ^ ?d = ?lo" by simp_all
    have lo_bit: "\<not> bit ?lo ?d" "bit (?lo + 2 ^ ?d) ?d"
      using bit_below_pow2 [OF lo_lt] bit_add_pow2 [OF lo_lt] by blast+
    have lo_a: "dir t ! ?lo = a" "dir t ! (?lo + 2 ^ ?d) = a"
      using sig [OF lo_len(1)] sig [OF lo_len(2)] lo_mod by simp_all
    from cases_heap [OF that] consider "x = ?n" | "x = a" | "x < ?n" "x \<noteq> a" by blast
    then show ?thesis
    proof cases
      case 1
      with split_slot_new(1) [OF lo_len(2) lo_a(2) lo_bit(2), of h] lo_len(2) show ?thesis
        by (auto simp: sf)
    next
      case 2
      with split_slot_old(1) [OF lo_len(1) lo_a(1) lo_bit(1) a, of h] lo_len(1) show ?thesis
        by (auto simp: sf)
    next
      case 3
      from tinv_ref [OF inv 3(1)] obtain i where i: "i < length (dir t)" "dir t ! i = x" by auto
      with split_slot_other(1) [OF i(1), of a h] 3 show ?thesis by (auto simp: sf)
    qed
  qed
  have slot_cases:
    "(dir t ! i = a \<and> bit i ?d \<and> dir ?t ! i = ?n \<and> depth (heap ?t ! (dir ?t ! i)) = Suc ?d
        \<and> list_b (heap ?t ! (dir ?t ! i)) = rev (filter (\<lambda>p. bit (h (fst p)) ?d) (list_b (heap t ! a))))
     \<or> (dir t ! i = a \<and> \<not> bit i ?d \<and> dir ?t ! i = a \<and> depth (heap ?t ! (dir ?t ! i)) = Suc ?d
        \<and> list_b (heap ?t ! (dir ?t ! i)) = filter (\<lambda>p. \<not> bit (h (fst p)) ?d) (list_b (heap t ! a)))
     \<or> (dir t ! i \<noteq> a \<and> dir ?t ! i = dir t ! i \<and> heap ?t ! (dir ?t ! i) = heap t ! (dir t ! i))"
    if i: "i < length (dir t)" for i
  proof -
    consider "dir t ! i = a" "bit i ?d" | "dir t ! i = a" "\<not> bit i ?d" | "dir t ! i \<noteq> a" by blast
    then show ?thesis
    proof cases
      case 1
      have "dir ?t ! i = ?n" by (rule split_slot_new(1) [OF i 1])
      then show ?thesis using 1 by (simp add: split_table_heap_new)
    next
      case 2
      have "dir ?t ! i = a" by (rule split_slot_old(1) [OF i 2 a])
      then show ?thesis using 2 by (simp add: split_table_heap_old [OF a])
    next
      case 3
      have "dir ?t ! i = dir t ! i" by (rule split_slot_other(1) [OF i 3 addr [OF i]])
      then show ?thesis using 3 by (simp add: split_table_heap_other [OF addr [OF i] 3])
    qed
  qed
  show "depth (heap ?t ! (dir ?t ! i)) \<le> global_depth ?t" if "i < length (dir ?t)" for i
  proof -
    from that have i: "i < length (dir t)" by (simp add: sf)
    from slot_cases [OF i] tinv_depth [OF inv i] dg show ?thesis
      unfolding sf by (elim disjE conjE) simp_all
  qed
  show "dir ?t ! i = dir ?t ! j \<longleftrightarrow>
       i mod 2 ^ depth (heap ?t ! (dir ?t ! i)) = j mod 2 ^ depth (heap ?t ! (dir ?t ! i))"
    if "i < length (dir ?t)" "j < length (dir ?t)" for i j
  proof -
    from that have i: "i < length (dir t)" and j: "j < length (dir t)" by (simp_all add: sf)
    note dj = split_table_dir [OF j, of h a]
    from slot_cases [OF i] show ?thesis
    proof (elim disjE conjE)
      assume 1: "dir t ! i = a" "bit i ?d" and di: "dir ?t ! i = ?n"
        and dp: "depth (heap ?t ! (dir ?t ! i)) = Suc ?d"
      have "dir ?t ! j = ?n \<longleftrightarrow> dir t ! j = a \<and> bit j ?d"
        using addr [OF j] by (auto simp: dj)
      also have "\<dots> \<longleftrightarrow> i mod 2 ^ Suc ?d = j mod 2 ^ Suc ?d"
        unfolding mod_Suc_pow2_eq_iff using 1 sig [OF i] sig [OF j] by auto
      finally show ?thesis unfolding dp unfolding di by auto
    next
      assume 2: "dir t ! i = a" "\<not> bit i ?d" and di: "dir ?t ! i = a"
        and dp: "depth (heap ?t ! (dir ?t ! i)) = Suc ?d"
      have "dir ?t ! j = a \<longleftrightarrow> dir t ! j = a \<and> \<not> bit j ?d"
        using a by (auto simp: dj)
      also have "\<dots> \<longleftrightarrow> i mod 2 ^ Suc ?d = j mod 2 ^ Suc ?d"
        unfolding mod_Suc_pow2_eq_iff using 2 sig [OF i] sig [OF j] by auto
      finally show ?thesis unfolding dp unfolding di by auto
    next
      assume 3: "dir t ! i \<noteq> a" and di: "dir ?t ! i = dir t ! i"
        and hp: "heap ?t ! (dir ?t ! i) = heap t ! (dir t ! i)"
      have "dir ?t ! i = dir ?t ! j \<longleftrightarrow> dir t ! i = dir ?t ! j" by (simp only: di)
      also have "\<dots> \<longleftrightarrow> dir t ! i = dir t ! j"
        using 3 addr [OF i] by (auto simp: dj)
      also have "\<dots> \<longleftrightarrow> i mod 2 ^ depth (heap t ! (dir t ! i)) = j mod 2 ^ depth (heap t ! (dir t ! i))"
        by (rule tinv_share [OF inv i j])
      finally show ?thesis by (simp only: hp)
    qed
  qed
  show "h (fst p) mod 2 ^ depth (heap ?t ! (dir ?t ! i)) = i mod 2 ^ depth (heap ?t ! (dir ?t ! i))"
    if "i < length (dir ?t)" "p \<in> set (list_b (heap ?t ! (dir ?t ! i)))" for i p
  proof -
    from that have i: "i < length (dir t)" by (simp add: sf)
    from slot_cases [OF i] show ?thesis
    proof (elim disjE conjE)
      assume 1: "dir t ! i = a" "bit i ?d"
        and dp: "depth (heap ?t ! (dir ?t ! i)) = Suc ?d"
        and l: "list_b (heap ?t ! (dir ?t ! i)) = rev (filter (\<lambda>p. bit (h (fst p)) ?d) (list_b (heap t ! a)))"
      from that(2) have p: "p \<in> set (list_b (heap t ! a))" "bit (h (fst p)) ?d"
        unfolding l by simp_all
      from tinv_mask [OF inv i, of p] p(1) 1(1) have "h (fst p) mod 2 ^ ?d = i mod 2 ^ ?d" by simp
      with 1(2) p(2) show ?thesis unfolding dp mod_Suc_pow2_eq_iff by simp
    next
      assume 2: "dir t ! i = a" "\<not> bit i ?d"
        and dp: "depth (heap ?t ! (dir ?t ! i)) = Suc ?d"
        and l: "list_b (heap ?t ! (dir ?t ! i)) = filter (\<lambda>p. \<not> bit (h (fst p)) ?d) (list_b (heap t ! a))"
      from that(2) have p: "p \<in> set (list_b (heap t ! a))" "\<not> bit (h (fst p)) ?d"
        unfolding l by simp_all
      from tinv_mask [OF inv i, of p] p(1) 2(1) have "h (fst p) mod 2 ^ ?d = i mod 2 ^ ?d" by simp
      with 2(2) p(2) show ?thesis unfolding dp mod_Suc_pow2_eq_iff by simp
    next
      assume hp: "heap ?t ! (dir ?t ! i) = heap t ! (dir t ! i)"
      from that(2) tinv_mask [OF inv i, of p] show ?thesis unfolding hp by simp
    qed
  qed
  have heap_cases:
    "(x = ?n \<and> size_b (heap ?t ! x) = bucket_size t
        \<and> list_b (heap ?t ! x) = rev (filter (\<lambda>p. bit (h (fst p)) ?d) (list_b (heap t ! a))))
     \<or> (x = a \<and> size_b (heap ?t ! x) = size_b (heap t ! a)
        \<and> list_b (heap ?t ! x) = filter (\<lambda>p. \<not> bit (h (fst p)) ?d) (list_b (heap t ! a)))
     \<or> (x < ?n \<and> heap ?t ! x = heap t ! x)"
    if "x < length (heap ?t)" for x
    using cases_heap [OF that]
    by (elim disjE conjE)
      (simp_all add: split_table_heap_new split_table_heap_old [OF a] split_table_heap_other)
  have fl: "length (filter P (list_b (heap t ! a))) \<le> bucket_size t" for P
    using tinv_fill [OF inv a] tinv_size [OF inv a]
    by (metis length_filter_le le_trans)
  show "distinct (map fst (list_b (heap ?t ! x)))" if "x < length (heap ?t)" for x
    using heap_cases [OF that] tinv_distinct [OF inv a] tinv_distinct [OF inv, of x]
    by (elim disjE conjE) (simp_all add: distinct_map_filter flip: rev_map)
  show "length (list_b (heap ?t ! x)) \<le> size_b (heap ?t ! x)" if "x < length (heap ?t)" for x
    using heap_cases [OF that] tinv_fill [OF inv, of x] tinv_size [OF inv a]
      fl [of "\<lambda>p. bit (h (fst p)) ?d"] fl [of "\<lambda>p. \<not> bit (h (fst p)) ?d"]
    by (elim disjE conjE) simp_all
  show "size_b (heap ?t ! x) = bucket_size ?t" if "x < length (heap ?t)" for x
    using heap_cases [OF that] tinv_size [OF inv, of x] tinv_size [OF inv a]
    by (elim disjE conjE) (simp_all add: sf)
qed

lemma split_slot_cases:
  assumes i: "i < length (dir t)" and a: "a < length (heap t)" and ad: "dir t ! i < length (heap t)"
  shows
    "(dir t ! i = a \<and> bit i (depth (heap t ! a)) \<and>
        depth (heap (split_table h t a) ! (dir (split_table h t a) ! i)) = Suc (depth (heap t ! a)) \<and>
        list_b (heap (split_table h t a) ! (dir (split_table h t a) ! i)) =
          rev (filter (\<lambda>p. bit (h (fst p)) (depth (heap t ! a))) (list_b (heap t ! a))))
     \<or> (dir t ! i = a \<and> \<not> bit i (depth (heap t ! a)) \<and>
        depth (heap (split_table h t a) ! (dir (split_table h t a) ! i)) = Suc (depth (heap t ! a)) \<and>
        list_b (heap (split_table h t a) ! (dir (split_table h t a) ! i)) =
          filter (\<lambda>p. \<not> bit (h (fst p)) (depth (heap t ! a))) (list_b (heap t ! a)))
     \<or> (dir t ! i \<noteq> a \<and>
        heap (split_table h t a) ! (dir (split_table h t a) ! i) = heap t ! (dir t ! i))"
proof -
  let ?t = "split_table h t a"
  let ?d = "depth (heap t ! a)"
  consider "dir t ! i = a" "bit i ?d" | "dir t ! i = a" "\<not> bit i ?d" | "dir t ! i \<noteq> a" by blast
  then show ?thesis
  proof cases
    case 1
    have "dir ?t ! i = length (heap t)" by (rule split_slot_new(1) [OF i 1])
    then show ?thesis using 1 by (simp add: split_table_heap_new)
  next
    case 2
    have "dir ?t ! i = a" by (rule split_slot_old(1) [OF i 2 a])
    then show ?thesis using 2 by (simp add: split_table_heap_old [OF a])
  next
    case 3
    have "dir ?t ! i = dir t ! i" by (rule split_slot_other(1) [OF i 3 ad])
    then show ?thesis using 3 by (simp add: split_table_heap_other [OF ad 3])
  qed
qed

lemma content_split:
  assumes inv: "tinv h t" and a: "a < length (heap t)" and dg: "depth (heap t ! a) < global_depth t"
  shows "content h (split_table h t a) = content h t"
proof
  fix k
  let ?t = "split_table h t a"
  let ?d = "depth (heap t ! a)"
  let ?i = "h k mod 2 ^ global_depth t"
  let ?l = "list_b (heap t ! a)"
  have i: "?i < length (dir t)" by (rule slot_in_range [OF inv])
  have bi: "bit ?i ?d = bit (h k) ?d" by (rule bit_mod_pow2 [OF dg])
  have dl: "distinct (map fst ?l)" by (rule tinv_distinct [OF inv a])
  have c: "content h ?t k = map_of (list_b (heap ?t ! (dir ?t ! ?i))) k"
    by (simp add: content_def split_table_fields)
  from split_slot_cases [OF i a tinv_addr [OF inv i], of h]
  show "content h ?t k = content h t k"
  proof (elim disjE conjE)
    assume 1: "dir t ! ?i = a" "bit ?i ?d"
      and l: "list_b (heap ?t ! (dir ?t ! ?i)) = rev (filter (\<lambda>p. bit (h (fst p)) ?d) ?l)"
    have "map_of (rev (filter (\<lambda>p. bit (h (fst p)) ?d) ?l)) k
        = map_of (filter (\<lambda>p. bit (h (fst p)) ?d) ?l) k"
      using dl by (simp add: map_of_rev_distinct distinct_map_filter)
    also have "\<dots> = map_of ?l k"
      using 1(2) bi by (intro map_of_filter_distinct [OF dl]) auto
    finally show ?thesis unfolding c l by (simp add: content_def 1(1))
  next
    assume 2: "dir t ! ?i = a" "\<not> bit ?i ?d"
      and l: "list_b (heap ?t ! (dir ?t ! ?i)) = filter (\<lambda>p. \<not> bit (h (fst p)) ?d) ?l"
    have "map_of (filter (\<lambda>p. \<not> bit (h (fst p)) ?d) ?l) k = map_of ?l k"
      using 2(2) bi by (intro map_of_filter_distinct [OF dl]) auto
    then show ?thesis unfolding c l by (simp add: content_def 2(1))
  next
    assume "heap ?t ! (dir ?t ! ?i) = heap t ! (dir t ! ?i)"
    then show ?thesis unfolding c by (simp add: content_def)
  qed
qed

lemma split_target:
  assumes i: "i < length (dir t)" and a: "a < length (heap t)" and ia: "dir t ! i = a"
  shows "depth (heap (split_table h t a) ! (dir (split_table h t a) ! i)) = Suc (depth (heap t ! a))"
    and "set (list_b (heap (split_table h t a) ! (dir (split_table h t a) ! i))) \<subseteq> set (list_b (heap t ! a))"
  using split_slot_cases [OF i a, of h] ia a by auto

lemma tinv_bucket_update:
  assumes inv: "tinv h t" and k: "dir t ! (h k mod 2 ^ global_depth t) = a"
    and dl: "distinct (map fst l)" and ll: "length l \<le> bucket_size t"
    and keys: "fst ` set l \<subseteq> insert k (fst ` set (list_b (heap t ! a)))"
  shows "tinv h (t\<lparr>heap := (heap t)[a := (heap t ! a)\<lparr>list_b := l\<rparr>]\<rparr>)"
proof (rule tinvI)
  let ?t = "t\<lparr>heap := (heap t)[a := (heap t ! a)\<lparr>list_b := l\<rparr>]\<rparr>"
  let ?i = "h k mod 2 ^ global_depth t"
  have i: "?i < length (dir t)" by (rule slot_in_range [OF inv])
  have a: "a < length (heap t)" using tinv_addr [OF inv i] k by simp
  have dep: "depth (heap ?t ! x) = depth (heap t ! x)" if "x < length (heap t)" for x
    using that by (cases "x = a") simp_all
  have sz: "size_b (heap ?t ! x) = size_b (heap t ! x)" if "x < length (heap t)" for x
    using that by (cases "x = a") simp_all
  have ls: "list_b (heap ?t ! x) = (if x = a then l else list_b (heap t ! x))"
    if "x < length (heap t)" for x
    using that by simp
  show "length (dir ?t) = 2 ^ global_depth ?t" using tinv_length [OF inv] by simp
  show "num_buckets ?t = length (heap ?t)" using tinv_num [OF inv] by simp
  show "dir ?t ! j < length (heap ?t)" if "j < length (dir ?t)" for j
    using tinv_addr [OF inv, of j] that by simp
  show "\<exists>j < length (dir ?t). dir ?t ! j = x" if "x < length (heap ?t)" for x
    using tinv_ref [OF inv, of x] that by simp
  show "depth (heap ?t ! (dir ?t ! j)) \<le> global_depth ?t" if "j < length (dir ?t)" for j
  proof -
    from that have j: "j < length (dir t)" by simp
    from tinv_depth [OF inv j] dep [OF tinv_addr [OF inv j]] show ?thesis by simp
  qed
  show "dir ?t ! j = dir ?t ! j' \<longleftrightarrow>
       j mod 2 ^ depth (heap ?t ! (dir ?t ! j)) = j' mod 2 ^ depth (heap ?t ! (dir ?t ! j))"
    if "j < length (dir ?t)" "j' < length (dir ?t)" for j j'
  proof -
    from that have j: "j < length (dir t)" "j' < length (dir t)" by simp_all
    from tinv_share [OF inv j] dep [OF tinv_addr [OF inv j(1)]] show ?thesis by simp
  qed
  show "h (fst p) mod 2 ^ depth (heap ?t ! (dir ?t ! j)) = j mod 2 ^ depth (heap ?t ! (dir ?t ! j))"
    if "j < length (dir ?t)" "p \<in> set (list_b (heap ?t ! (dir ?t ! j)))" for j p
  proof -
    from that have j: "j < length (dir t)" by simp
    note aj = tinv_addr [OF inv j]
    let ?d = "depth (heap t ! (dir t ! j))"
    have goal: "h (fst p) mod 2 ^ ?d = j mod 2 ^ ?d"
    proof (cases "dir t ! j = a")
      case False
      with that(2) ls [OF aj] have "p \<in> set (list_b (heap t ! (dir t ! j)))" by simp
      then show ?thesis by (rule tinv_mask [OF inv j])
    next
      case True
      with that(2) ls [OF aj] have "p \<in> set l" by simp
      with keys consider "fst p = k" | q where "q \<in> set (list_b (heap t ! a))" "fst q = fst p"
        by (auto simp: image_iff subset_iff)
      then show ?thesis
      proof cases
        case 1
        have "?d \<le> global_depth t" by (rule tinv_depth [OF inv j])
        then have "h k mod 2 ^ ?d = ?i mod 2 ^ ?d" by (simp add: mod_pow2_mod_pow2)
        also have "\<dots> = j mod 2 ^ ?d"
          using tinv_share [OF inv j i] True k by simp
        finally show ?thesis using 1 by simp
      next
        case 2
        from 2(1) True have "q \<in> set (list_b (heap t ! (dir t ! j)))" by simp
        from tinv_mask [OF inv j this] 2(2) show ?thesis by simp
      qed
    qed
    then show ?thesis using dep [OF aj] by simp
  qed
  show "distinct (map fst (list_b (heap ?t ! x)))" if "x < length (heap ?t)" for x
    using that tinv_distinct [OF inv, of x] dl by (cases "x = a") simp_all
  show "length (list_b (heap ?t ! x)) \<le> size_b (heap ?t ! x)" if "x < length (heap ?t)" for x
    using that tinv_fill [OF inv, of x] tinv_size [OF inv, of x] ll by (cases "x = a") simp_all
  show "size_b (heap ?t ! x) = bucket_size ?t" if "x < length (heap ?t)" for x
    using that tinv_size [OF inv, of x] by (cases "x = a") simp_all
qed

lemma content_bucket_update:
  assumes inv: "tinv h t" and k: "dir t ! (h k mod 2 ^ global_depth t) = a"
    and l: "\<And>k'. k' \<noteq> k \<Longrightarrow> map_of l k' = map_of (list_b (heap t ! a)) k'"
  shows "content h (t\<lparr>heap := (heap t)[a := (heap t ! a)\<lparr>list_b := l\<rparr>]\<rparr>) = (content h t)(k := map_of l k)"
proof
  fix k'
  let ?t = "t\<lparr>heap := (heap t)[a := (heap t ! a)\<lparr>list_b := l\<rparr>]\<rparr>"
  let ?i = "h k' mod 2 ^ global_depth t"
  have i: "?i < length (dir t)" by (rule slot_in_range [OF inv])
  note ai = tinv_addr [OF inv i]
  have c: "content h ?t k' = map_of (if dir t ! ?i = a then l else list_b (heap t ! (dir t ! ?i))) k'"
    using ai by (simp add: content_def)
  show "content h ?t k' = ((content h t)(k := map_of l k)) k'"
  proof (cases "k' = k")
    case True
    with k c show ?thesis by simp
  next
    case False
    with l [OF False] c show ?thesis by (simp add: content_def)
  qed
qed

subsection \<open>One round of the loop of Insert\<close>

lemma Insert_body_cases:
  assumes inv: "tinv h t" and gb: "global_depth t \<le> 31"
  obtains
    (fits) t' where "Insert_body h k v t = Inl (Inr t')" "tinv h t'"
      "content h t' = (content h t)(k \<mapsto> v)" "bucket_size t' = bucket_size t"
      "k \<in> fst ` set (list_b (target h t k)) \<or> \<not> Bucket_IsFull (target h t k)"
      "global_depth t' = global_depth t"
  | (empty) "Insert_body h k v t = Inl (Inl UndefinedBehaviour)" "bucket_size t = 0"
  | (split) t' where "Insert_body h k v t = Inr t'" "tinv h t'"
      "content h t' = content h t" "bucket_size t' = bucket_size t"
      "k \<notin> fst ` set (list_b (target h t k))" "list_b (target h t k) \<noteq> []"
      "depth (target h t' k) = Suc (depth (target h t k))"
      "set (list_b (target h t' k)) \<subseteq> set (list_b (target h t k))"
      "Bucket_IsFull (target h t k)"
      "list_b (target h t' k) =
         (if bit (h k) (depth (target h t k))
          then rev (filter (\<lambda>p. bit (h (fst p)) (depth (target h t k))) (list_b (target h t k)))
          else filter (\<lambda>p. \<not> bit (h (fst p)) (depth (target h t k))) (list_b (target h t k)))"
      "global_depth t' = max (global_depth t) (Suc (depth (target h t k)))"
proof -
  let ?g = "global_depth t"
  let ?i = "h k mod 2 ^ ?g"
  let ?a = "dir t ! ?i"
  let ?b = "heap t ! ?a"
  have i: "?i < length (dir t)" by (rule slot_in_range [OF inv])
  have a: "?a < length (heap t)" by (rule tinv_addr [OF inv i])
  note sb = slot_bucket_ok [OF inv gb, of k]
  have tb: "target h t k = ?b" by (simp add: target_def)
  show ?thesis
  proof (cases "k \<in> fst ` set (list_b ?b)")
    case True
    from Bucket_Insert_present [OF True, of v] obtain l where
      l: "Bucket_Insert k v ?b = (True, ?b\<lparr>list_b := l\<rparr>)" "map fst l = map fst (list_b ?b)"
        "map_of l = (map_of (list_b ?b))(k \<mapsto> v)" by blast
    let ?t = "t\<lparr>heap := (heap t)[?a := ?b\<lparr>list_b := l\<rparr>]\<rparr>"
    have 1: "Insert_body h k v t = Inl (Inr ?t)" by (simp add: Insert_body_def sb l(1))
    have "distinct (map fst l)" using tinv_distinct [OF inv a] l(2) by simp
    moreover have "length l \<le> bucket_size t"
      using tinv_fill [OF inv a] tinv_size [OF inv a] l(2) by (metis length_map)
    moreover have "fst ` set l \<subseteq> insert k (fst ` set (list_b ?b))"
      using l(2) by (metis set_map subset_insertI)
    ultimately have 2: "tinv h ?t" by (intro tinv_bucket_update [OF inv refl])
    have 3: "content h ?t = (content h t)(k \<mapsto> v)"
      using content_bucket_update [OF inv refl, where l = l] l(3) by simp
    show ?thesis by (rule fits [OF 1 2 3]) (use True in \<open>simp_all add: tb\<close>)
  next
    case False
    note absent = False
    show ?thesis
    proof (cases "Bucket_IsFull ?b")
      case False
      let ?l = "(k, v) # list_b ?b"
      let ?t = "t\<lparr>heap := (heap t)[?a := ?b\<lparr>list_b := ?l\<rparr>]\<rparr>"
      have 1: "Insert_body h k v t = Inl (Inr ?t)"
        using False by (simp add: Insert_body_def sb Bucket_Insert_absent [OF absent])
      have "distinct (map fst ?l)" using tinv_distinct [OF inv a] absent by simp
      moreover have "length ?l \<le> bucket_size t"
        using False tinv_size [OF inv a] by (simp add: Bucket_IsFull_def)
      moreover have "fst ` set ?l \<subseteq> insert k (fst ` set (list_b ?b))" by auto
      ultimately have 2: "tinv h ?t" by (intro tinv_bucket_update [OF inv refl])
      have 3: "content h ?t = (content h t)(k \<mapsto> v)"
        using content_bucket_update [OF inv refl, where l = ?l] by simp
      show ?thesis by (rule fits [OF 1 2 3]) (use False in \<open>simp_all add: tb\<close>)
    next
      case True
      note full = True
      let ?d = "depth ?b"
      define t1 where "t1 = (if ?g = ?d then double_dir t else t)"
      have dg: "?d \<le> ?g" by (rule tinv_depth [OF inv i])
      have inv1: "tinv h t1" using inv tinv_double [OF inv] by (simp add: t1_def)
      have hp1: "heap t1 = heap t" by (simp add: double_dir_def t1_def)
      have bs1: "bucket_size t1 = bucket_size t" by (simp add: double_dir_def t1_def)
      have dg1: "?d < global_depth t1" using dg by (auto simp: double_dir_def t1_def)
      let ?i1 = "h k mod 2 ^ global_depth t1"
      have i1: "?i1 < length (dir t1)" by (rule slot_in_range [OF inv1])
      have a1: "dir t1 ! ?i1 = ?a" using double_dir_slot [OF inv, of "h k"] by (simp add: t1_def)
      have c1: "content h t1 = content h t" using content_double [OF inv] by (simp add: t1_def)
      have body: "Insert_body h k v t =
        (case RedistributeBucket h t1 ?a of Inl e \<Rightarrow> Inl (Inl e) | Inr t2 \<Rightarrow> Inr t2)"
        using full dg dg1
        by (simp add: Insert_body_def sb Bucket_Insert_absent [OF absent] Let_def t1_def)
      show ?thesis
      proof (cases "list_b ?b = []")
        case True
        then have "RedistributeBucket h t1 ?a = Inl UndefinedBehaviour"
          by (simp add: RedistributeBucket_def Let_def hp1)
        moreover from True full have "bucket_size t = 0"
          using tinv_size [OF inv a] by (simp add: Bucket_IsFull_def)
        ultimately show ?thesis using body by (intro empty) simp_all
      next
        case False
        let ?t2 = "split_table h t1 ?a"
        have ne1: "list_b (heap t1 ! ?a) \<noteq> []" using False by (simp add: hp1)
        have a': "?a < length (heap t1)" using a by (simp add: hp1)
        have dg': "depth (heap t1 ! ?a) < global_depth t1" using dg1 by (simp add: hp1)
        have "RedistributeBucket h t1 ?a = Inr ?t2"
          by (rule Redistribute_split [OF inv1 i1 a1 ne1]) (use dg gb in \<open>simp add: hp1\<close>)
        with body have 1: "Insert_body h k v t = Inr ?t2" by simp
        have 2: "tinv h ?t2" by (rule tinv_split [OF inv1 i1 a1 dg'])
        have 3: "content h ?t2 = content h t"
          using content_split [OF inv1 a' dg'] c1 by simp
        have 4: "bucket_size ?t2 = bucket_size t"
          by (simp only: split_table_fields bs1)
        have g2: "global_depth ?t2 = global_depth t1" by (simp only: split_table_fields)
        have t2: "target h ?t2 k = heap ?t2 ! (dir ?t2 ! ?i1)"
          by (simp only: target_def g2)
        have hb: "heap t1 ! ?a = ?b" by (simp only: hp1)
        have 5: "depth (target h ?t2 k) = Suc (depth (target h t k))"
          unfolding t2 tb using split_target(1) [OF i1 a' a1, of h] by (simp only: hb)
        have 6: "set (list_b (target h ?t2 k)) \<subseteq> set (list_b (target h t k))"
          unfolding t2 tb using split_target(2) [OF i1 a' a1, of h] by (simp only: hb)
        have bi: "bit ?i1 ?d = bit (h k) ?d" by (rule bit_mod_pow2 [OF dg1])
        have 7: "list_b (target h ?t2 k) =
         (if bit (h k) ?d
          then rev (filter (\<lambda>p. bit (h (fst p)) ?d) (list_b ?b))
          else filter (\<lambda>p. \<not> bit (h (fst p)) ?d) (list_b ?b))"
          unfolding t2 using split_slot_cases [OF i1 a', of h] a1 a' bi by (auto simp: hb)
        have "global_depth t1 = max ?g (Suc ?d)"
          using dg by (auto simp: t1_def double_dir_def)
        then have 8: "global_depth ?t2 = max ?g (Suc ?d)" by (simp only: g2)
        show ?thesis
          by (rule split [OF 1 2 3 4 _ _ 5 6]) (use absent False full 7 8 in \<open>simp_all add: tb\<close>)
      qed
    qed
  qed
qed

lemma same_slot_bucket:
  assumes inv: "tinv h t" and i: "i < length (dir t)"
    and m: "x mod 2 ^ depth (heap t ! (dir t ! i)) = i mod 2 ^ depth (heap t ! (dir t ! i))"
  shows "dir t ! (x mod 2 ^ global_depth t) = dir t ! i"
proof -
  let ?d = "depth (heap t ! (dir t ! i))"
  let ?j = "x mod 2 ^ global_depth t"
  have j: "?j < length (dir t)" by (simp add: tinv_length [OF inv])
  have "?d \<le> global_depth t" by (rule tinv_depth [OF inv i])
  then have "?j mod 2 ^ ?d = x mod 2 ^ ?d" by (rule mod_pow2_mod_pow2)
  with m have "i mod 2 ^ ?d = ?j mod 2 ^ ?d" by simp
  with tinv_share [OF inv i j] show ?thesis by simp
qed

lemma bucket_items_stored:
  assumes inv: "tinv h t" and i: "i < length (dir t)"
    and p: "p \<in> set (list_b (heap t ! (dir t ! i)))"
  shows "content h t (fst p) = Some (snd p)"
proof -
  have "dir t ! (h (fst p) mod 2 ^ global_depth t) = dir t ! i"
    by (rule same_slot_bucket [OF inv i tinv_mask [OF inv i p]])
  moreover have "map_of (list_b (heap t ! (dir t ! i))) (fst p) = Some (snd p)"
    using tinv_distinct [OF inv tinv_addr [OF inv i]] p by simp
  ultimately show ?thesis by (simp add: content_def)
qed

lemma content_in_target:
  assumes "content h t k' \<noteq> None" "h k' mod 2 ^ global_depth t = h k mod 2 ^ global_depth t"
  shows "k' \<in> fst ` set (list_b (target h t k))"
  using assms by (auto simp: content_def target_def map_of_eq_None_iff)

lemma target_content: "content h t k = map_of (list_b (target h t k)) k"
  by (simp add: content_def target_def)

lemma finite_stored:
  assumes inv: "tinv h t"
  shows "finite {k'. content h t k' \<noteq> None}"
proof (rule finite_subset)
  show "{k'. content h t k' \<noteq> None} \<subseteq> (\<Union>b \<in> set (heap t). fst ` set (list_b b))"
  proof
    fix x assume "x \<in> {k'. content h t k' \<noteq> None}"
    then have x: "x \<in> fst ` set (list_b (heap t ! (dir t ! (h x mod 2 ^ global_depth t))))"
      by (simp add: content_def map_of_eq_None_iff)
    have "dir t ! (h x mod 2 ^ global_depth t) < length (heap t)"
      by (intro tinv_addr [OF inv] slot_in_range [OF inv])
    then have "heap t ! (dir t ! (h x mod 2 ^ global_depth t)) \<in> set (heap t)" by simp
    with x show "x \<in> (\<Union>b \<in> set (heap t). fst ` set (list_b b))" by blast
  qed
qed simp

lemma finite_colliding:
  assumes "tinv h t"
  shows "finite {k'. content h t k' \<noteq> None \<and> P k'}"
  by (rule finite_subset [OF _ finite_stored [OF assms]]) auto

lemma target_size:
  assumes "tinv h t"
  shows "size_b (target h t k) = bucket_size t"
  unfolding target_def
  by (intro tinv_size [OF assms] tinv_addr [OF assms] slot_in_range [OF assms])

subsection \<open>The loop of Insert and sequences of calls, up to depth 31\<close>

lemma RedistributeBucket_depth:
  "RedistributeBucket h t a = Inr t' \<Longrightarrow> global_depth t' = global_depth t"
  by (auto simp: RedistributeBucket_def Let_def split: list.splits sum.splits)

lemma Insert_body_depth:
  "Insert_body h k v t = Inl (Inr t') \<Longrightarrow> global_depth t' = global_depth t"
  "Insert_body h k v t = Inr t' \<Longrightarrow> global_depth t \<le> global_depth t'"
  by (auto simp: Insert_body_def Let_def double_dir_def
      dest!: RedistributeBucket_depth split: sum.splits prod.splits bool.splits if_splits)

lemma Insert_partial_aux:
  assumes "Insert h k v t = Some r"
  shows "Insert_post h k v t r"
proof (rule Insert.raw_induct [where P = Insert_post, OF _ assms])
  fix ins :: "('a \<Rightarrow> nat) \<Rightarrow> 'a \<Rightarrow> 'b \<Rightarrow> ('a, 'b) ExtendibleHashTable \<Rightarrow>
     (error + ('a, 'b) ExtendibleHashTable) option"
  fix h k v t r
  assume IH: "\<And>h k v t r. ins h k v t = Some r \<Longrightarrow> Insert_post h k v t r"
    and body: "(case Insert_body h k v t of Inl r \<Rightarrow> Some r | Inr t' \<Rightarrow> ins h k v t') = Some r"
  show "Insert_post h k v t r"
  proof (cases r)
    case (Inl e)
    then show ?thesis by (simp add: Insert_post_def)
  next
    case (Inr t')
    show ?thesis
    proof (cases "Insert_body h k v t")
      case (Inl r0)
      with body Inr have b: "Insert_body h k v t = Inl (Inr t')" by simp
      from Insert_body_depth(1) [OF b] have g: "global_depth t' = global_depth t" .
      have "tinv h t' \<and> content h t' = (content h t)(k \<mapsto> v) \<and> bucket_size t' = bucket_size t"
        if inv: "tinv h t" and gb: "global_depth t' \<le> 31"
      proof -
        from gb g have gt: "global_depth t \<le> 31" by simp
        show ?thesis
          by (cases rule: Insert_body_cases [OF inv gt, of k v, case_names fits empty split])
            (use b in auto)
      qed
      with g show ?thesis by (simp add: Insert_post_def Inr)
    next
      case (Inr t1)
      with body have i1: "ins h k v t1 = Some r" by simp
      from IH [OF i1] \<open>r = Inr t'\<close> have
        m1: "global_depth t1 \<le> global_depth t'" and
        p1: "tinv h t1 \<and> global_depth t' \<le> 31 \<longrightarrow>
          tinv h t' \<and> content h t' = (content h t1)(k \<mapsto> v) \<and> bucket_size t' = bucket_size t1"
        by (simp_all add: Insert_post_def)
      from Insert_body_depth(2) [OF Inr] have m0: "global_depth t \<le> global_depth t1" .
      have "tinv h t' \<and> content h t' = (content h t)(k \<mapsto> v) \<and> bucket_size t' = bucket_size t"
        if inv: "tinv h t" and gb: "global_depth t' \<le> 31"
      proof -
        from gb m0 m1 have gt: "global_depth t \<le> 31" by simp
        show ?thesis
        proof (cases rule: Insert_body_cases [OF inv gt, of k v, case_names fits empty split])
          case (fits t2)
          with Inr show ?thesis by simp
        next
          case empty
          with Inr show ?thesis by simp
        next
          case (split t2)
          with Inr have "t2 = t1" by simp
          with split(2,3,4) p1 gb show ?thesis by simp
        qed
      qed
      with m0 m1 show ?thesis by (simp add: Insert_post_def \<open>r = Inr t'\<close>)
    qed
  qed
qed

lemma Insert_depth_mono:
  "Insert h k v t = Some (Inr t') \<Longrightarrow> global_depth t \<le> global_depth t'"
  using Insert_partial_aux [of h k v t "Inr t'"] by (simp add: Insert_post_def)

lemma Insert_partial:
  assumes "Insert h k v t = Some (Inr t')" "tinv h t" "global_depth t' \<le> 31"
  shows "tinv h t' \<and> content h t' = (content h t)(k \<mapsto> v) \<and> bucket_size t' = bucket_size t"
  using Insert_partial_aux [OF assms(1)] assms(2,3) by (simp add: Insert_post_def)

lemma Insert_total_aux:
  assumes "tinv h t" "global_depth t \<le> 31" "0 < bucket_size t"
    "content h t k \<noteq> None \<or>
     card {k'. content h t k' \<noteq> None \<and> h k' mod 2 ^ 31 = h k mod 2 ^ 31} < bucket_size t"
    "31 - depth (target h t k) = n"
  shows "\<exists>t'. Insert h k v t = Some (Inr t') \<and> global_depth t' \<le> 31"
  using assms
proof (induction n arbitrary: t rule: less_induct)
  case (less n)
  note inv = less.prems(1) and gb = less.prems(2)
  show ?case
  proof (cases rule: Insert_body_cases [OF inv gb, of k v, case_names fits empty split])
    case (fits t')
    from fits(1) have "Insert h k v t = Some (Inr t')" by (subst Insert.simps) simp
    with fits(6) gb show ?thesis by simp
  next
    case empty
    with less.prems(3) show ?thesis by simp
  next
    case (split t')
    let ?b = "target h t k"
    let ?d = "depth ?b"
    let ?i = "h k mod 2 ^ global_depth t"
    let ?C = "{k'. content h t k' \<noteq> None \<and> h k' mod 2 ^ 31 = h k mod 2 ^ 31}"
    from split(5) have ab: "content h t k = None"
      by (simp add: target_content map_of_eq_None_iff)
    with less.prems(4) have co: "card ?C < bucket_size t" by simp
    have i: "?i < length (dir t)" by (rule slot_in_range [OF inv])
    have dg: "?d \<le> global_depth t"
      using tinv_depth [OF inv i] by (simp add: target_def)
    have eq: "h (fst p) mod 2 ^ ?d = h k mod 2 ^ ?d" if "p \<in> set (list_b ?b)" for p
    proof -
      have "h (fst p) mod 2 ^ ?d = ?i mod 2 ^ ?d"
        using tinv_mask [OF inv i, of p] that by (simp add: target_def)
      also have "\<dots> = h k mod 2 ^ ?d" using dg by (simp add: mod_pow2_mod_pow2)
      finally show ?thesis .
    qed
    have lt: "?d < 31"
    proof (rule ccontr)
      assume "\<not> ?d < 31"
      with dg gb have d31: "?d = 31" by simp
      have "fst ` set (list_b ?b) \<subseteq> ?C"
      proof
        fix x assume "x \<in> fst ` set (list_b ?b)"
        then obtain p where p: "p \<in> set (list_b ?b)" "x = fst p" by auto
        from p(1) have "p \<in> set (list_b (heap t ! (dir t ! ?i)))" by (simp add: target_def)
        from bucket_items_stored [OF inv i this] eq [OF p(1)] p(2)
        show "x \<in> ?C" by (simp add: d31)
      qed
      then have "card (fst ` set (list_b ?b)) \<le> card ?C"
        by (intro card_mono finite_colliding [OF inv])
      moreover have "card (fst ` set (list_b ?b)) = length (list_b ?b)"
        using tinv_distinct [OF inv tinv_addr [OF inv i]]
        by (metis distinct_card length_map set_map target_def)
      moreover have "bucket_size t \<le> length (list_b ?b)"
        using split(9) by (simp add: Bucket_IsFull_def target_size [OF inv])
      ultimately show False using co by simp
    qed
    have g': "global_depth t' \<le> 31" using split(11) gb lt by simp
    have "\<exists>t''. Insert h k v t' = Some (Inr t'') \<and> global_depth t'' \<le> 31"
    proof (rule less.IH [OF _ split(2) g' _ _ refl])
      show "31 - depth (target h t' k) < n" using lt less.prems(5) split(7) by simp
      show "0 < bucket_size t'" using less.prems(3) split(4) by simp
      show "content h t' k \<noteq> None \<or>
        card {k'. content h t' k' \<noteq> None \<and> h k' mod 2 ^ 31 = h k mod 2 ^ 31} < bucket_size t'"
        using co split(3,4) by simp
    qed
    moreover have "Insert h k v t = Insert h k v t'"
      by (subst Insert.simps) (simp add: split(1))
    ultimately show ?thesis by simp
  qed
qed

lemma Insert_total:
  assumes "tinv h t" "global_depth t \<le> 31" "0 < bucket_size t"
    "content h t k \<noteq> None \<or>
     card {k'. content h t k' \<noteq> None \<and> h k' mod 2 ^ 31 = h k mod 2 ^ 31} < bucket_size t"
  shows "\<exists>t'. Insert h k v t = Some (Inr t') \<and> global_depth t' \<le> 31"
  by (rule Insert_total_aux [OF assms refl])

lemma Remove_key_depth:
  "Remove_key h t k = Inr (r, t') \<Longrightarrow> global_depth t' = global_depth t"
  by (auto simp: Remove_key_def split: sum.splits prod.splits)

lemma Remove_key_ok:
  assumes inv: "tinv h t" and gb: "global_depth t \<le> 31"
  shows "\<exists>r t'. Remove_key h t k = Inr (r, t') \<and> tinv h t' \<and>
    content h t' = (content h t)(k := None) \<and> r = (content h t k \<noteq> None) \<and>
    bucket_size t' = bucket_size t \<and> global_depth t' = global_depth t \<and>
    num_buckets t' = num_buckets t \<and> dir t' = dir t"
proof -
  let ?i = "h k mod 2 ^ global_depth t"
  let ?a = "dir t ! ?i"
  let ?b = "heap t ! ?a"
  have i: "?i < length (dir t)" by (rule slot_in_range [OF inv])
  have a: "?a < length (heap t)" by (rule tinv_addr [OF inv i])
  note sb = slot_bucket_ok [OF inv gb, of k]
  have ck: "content h t k = map_of (list_b ?b) k" by (simp add: content_def)
  show ?thesis
  proof (cases "k \<in> fst ` set (list_b ?b)")
    case False
    then have n: "map_of (list_b ?b) k = None" by (simp add: map_of_eq_None_iff)
    have u: "t\<lparr>heap := (heap t)[?a := ?b]\<rparr> = t" by simp
    have "(content h t)(k := None) = content h t" using ck n by (auto simp: fun_eq_iff)
    moreover have "Remove_key h t k = Inr (False, t)"
      by (simp add: Remove_key_def sb Bucket_Remove_absent [OF False] u)
    ultimately show ?thesis using inv ck n
      by (intro exI [of _ False] exI [of _ t]) simp
  next
    case True
    from Bucket_Remove_present [OF True tinv_distinct [OF inv a]] obtain l where
      l: "Bucket_Remove k ?b = (True, ?b\<lparr>list_b := l\<rparr>)" "set l \<subseteq> set (list_b ?b)"
        "distinct (map fst l)" "length l \<le> length (list_b ?b)"
        "map_of l = (map_of (list_b ?b))(k := None)" by blast
    let ?t = "t\<lparr>heap := (heap t)[?a := ?b\<lparr>list_b := l\<rparr>]\<rparr>"
    have 1: "Remove_key h t k = Inr (True, ?t)" by (simp add: Remove_key_def sb l(1))
    have "length l \<le> bucket_size t"
      using tinv_fill [OF inv a] tinv_size [OF inv a] l(4) by simp
    moreover have "fst ` set l \<subseteq> insert k (fst ` set (list_b ?b))" using l(2) by auto
    ultimately have 2: "tinv h ?t" by (intro tinv_bucket_update [OF inv refl] l(3))
    have 3: "content h ?t = (content h t)(k := None)"
      using content_bucket_update [OF inv refl, where l = l] l(5) by simp
    from True have "map_of (list_b ?b) k \<noteq> None" by (simp add: map_of_eq_None_iff)
    with 1 2 3 ck show ?thesis
      by (intro exI [of _ True] exI [of _ ?t]) simp
  qed
qed

lemma table_step_depth:
  assumes "table_step h t x = Some (Inr t')"
  shows "global_depth t \<le> global_depth t'"
proof (cases x)
  case (InsertOp k v)
  with assms show ?thesis by (simp add: Insert_depth_mono)
next
  case (RemoveOp_key k)
  with assms show ?thesis by (auto split: sum.splits dest: Remove_key_depth)
next
  case (FindOp k)
  with assms show ?thesis by (auto split: sum.splits)
qed

lemma table_replay_depth:
  "table_replay h t xs = Some (Inr t') \<Longrightarrow> global_depth t \<le> global_depth t'"
proof (induction xs arbitrary: t)
  case Nil
  then show ?case by simp
next
  case (Cons x xs)
  from Cons.prems obtain t1 where s: "table_step h t x = Some (Inr t1)"
    and r: "table_replay h t1 xs = Some (Inr t')"
    by (auto split: option.splits sum.splits)
  from table_step_depth [OF s] Cons.IH [OF r] show ?case by simp
qed

lemma table_step_inv:
  assumes "tinv h t" "table_step h t x = Some (Inr t')" "global_depth t' \<le> 31"
  shows "tinv h t' \<and> bucket_size t' = bucket_size t"
proof (cases x)
  case (InsertOp k v)
  with assms(2) have "Insert h k v t = Some (Inr t')" by simp
  from Insert_partial [OF this assms(1,3)] show ?thesis by simp
next
  case (RemoveOp_key k)
  from table_step_depth [OF assms(2)] assms(3) have "global_depth t \<le> 31" by simp
  with RemoveOp_key assms(2) Remove_key_ok [OF assms(1), of k] show ?thesis by auto
next
  case (FindOp k)
  with assms show ?thesis by (auto split: sum.splits)
qed

lemma table_replay_inv:
  "tinv h t \<Longrightarrow> table_replay h t xs = Some (Inr t') \<Longrightarrow> global_depth t' \<le> 31 \<Longrightarrow>
     tinv h t' \<and> bucket_size t' = bucket_size t"
proof (induction xs arbitrary: t)
  case Nil
  then show ?case by simp
next
  case (Cons x xs)
  from Cons.prems(2) obtain t1 where s: "table_step h t x = Some (Inr t1)"
    and r: "table_replay h t1 xs = Some (Inr t')"
    by (auto split: option.splits sum.splits)
  from table_replay_depth [OF r] Cons.prems(3) have "global_depth t1 \<le> 31" by simp
  from table_step_inv [OF Cons.prems(1) s this] Cons.IH [OF _ r Cons.prems(3)] show ?case by simp
qed

lemma table_after_inv:
  assumes "table_after h c xs = Some (Inr t)" "global_depth t \<le> 31"
  shows "tinv h t \<and> bucket_size t = c"
proof -
  obtain t0 :: "('a, 'b) ExtendibleHashTable" where t0: "new_table c = Inr t0"
    by (simp add: new_table_def)
  with assms have "table_replay h t0 xs = Some (Inr t)" by (simp add: table_after_def)
  from table_replay_inv [OF tinv_new [OF t0] this assms(2)] t0 show ?thesis
    by (auto simp: new_table_def)
qed

lemma card_slots:
  assumes "s < 2 ^ d" "d \<le> g"
  shows "card {i::nat. i < 2 ^ g \<and> i mod 2 ^ d = s} = 2 ^ (g - d)"
proof -
  have pg: "(2::nat) ^ g = 2 ^ d * 2 ^ (g - d)" using assms(2) by (simp flip: power_add)
  have "{i. i < 2 ^ g \<and> i mod 2 ^ d = s} = (\<lambda>j. s + 2 ^ d * j) ` {..<2 ^ (g - d)}"
  proof (intro equalityI subsetI)
    fix i assume "i \<in> {i. i < 2 ^ g \<and> i mod 2 ^ d = s}"
    then have i: "i < 2 ^ g" "i mod 2 ^ d = s" by simp_all
    have "i = s + 2 ^ d * (i div 2 ^ d)" using i(2) by (metis mod_mult_div_eq)
    moreover have "i div 2 ^ d < 2 ^ (g - d)"
      using i(1) unfolding pg by (simp add: less_mult_imp_div_less mult.commute)
    ultimately show "i \<in> (\<lambda>j. s + 2 ^ d * j) ` {..<2 ^ (g - d)}" by blast
  next
    fix i assume "i \<in> (\<lambda>j. s + 2 ^ d * j) ` {..<2 ^ (g - d)}"
    then obtain j where j: "j < 2 ^ (g - d)" "i = s + 2 ^ d * j" by auto
    have "s + 2 ^ d * j < 2 ^ d * Suc j" using assms(1) by simp
    also have "\<dots> \<le> 2 ^ d * 2 ^ (g - d)" using j(1) by (intro mult_le_mono2) simp
    finally have "i < 2 ^ g" using j(2) pg by simp
    moreover have "i mod 2 ^ d = s" using assms(1) j(2) by simp
    ultimately show "i \<in> {i. i < 2 ^ g \<and> i mod 2 ^ d = s}" by simp
  qed
  moreover have "inj_on (\<lambda>j. s + (2::nat) ^ d * j) {..<2 ^ (g - d)}"
    by (rule inj_onI) simp
  ultimately show ?thesis by (simp add: card_image)
qed

lemma replay_inserts_content:
  assumes "tinv h t" "table_replay h t (map (\<lambda>(k, v). InsertOp k v) kvs) = Some (Inr t')"
    "global_depth t' \<le> 31"
  shows "content h t' = content h t ++ map_of (rev kvs)"
  using assms(1,2)
proof (induction kvs arbitrary: t)
  case Nil
  then show ?case by simp
next
  case (Cons p kvs)
  obtain k v where p: "p = (k, v)" by (cases p)
  from Cons.prems(2) p obtain t1 where s: "Insert h k v t = Some (Inr t1)"
    and r: "table_replay h t1 (map (\<lambda>(k, v). InsertOp k v) kvs) = Some (Inr t')"
    by (auto split: option.splits sum.splits)
  from table_replay_depth [OF r] assms(3) have "global_depth t1 \<le> 31" by simp
  from Insert_partial [OF s Cons.prems(1) this]
  have t1: "tinv h t1" "content h t1 = (content h t)(k \<mapsto> v)"
    by simp_all
  from Cons.IH [OF t1(1) r] have "content h t' = (content h t)(k \<mapsto> v) ++ map_of (rev kvs)"
    unfolding t1(2) .
  also have "\<dots> = content h t ++ ([k \<mapsto> v] ++ map_of (rev kvs))"
    by (auto simp: fun_eq_iff map_add_def split: option.splits)
  also have "[k \<mapsto> v] ++ map_of (rev kvs) = map_of (rev (p # kvs))"
    by (simp add: p)
  finally show ?case .
qed

lemma no_collision:
  assumes "inj_on (\<lambda>k. h k mod 2 ^ 31) A" "{k'. content h t k' \<noteq> None} \<subseteq> A" "k \<in> A"
    "content h t k = None"
  shows "{k'. content h t k' \<noteq> None \<and> h k' mod 2 ^ 31 = h k mod 2 ^ 31} = {}"
proof (rule ccontr)
  assume "{k'. content h t k' \<noteq> None \<and> h k' mod 2 ^ 31 = h k mod 2 ^ 31} \<noteq> {}"
  then obtain k' where k': "content h t k' \<noteq> None" "h k' mod 2 ^ 31 = h k mod 2 ^ 31" by blast
  from k'(1) assms(2) have "k' \<in> A" by blast
  with assms(1,3) k'(2) have "k' = k" by (auto dest: inj_onD)
  with k'(1) assms(4) show False by simp
qed

lemma replay_inserts_total:
  assumes "inj_on (\<lambda>k. h k mod 2 ^ 31) A" "fst ` set kvs \<subseteq> A"
    "tinv h t" "global_depth t \<le> 31" "0 < bucket_size t" "{k'. content h t k' \<noteq> None} \<subseteq> A"
  shows "\<exists>t'. table_replay h t (map (\<lambda>(k, v). InsertOp k v) kvs) = Some (Inr t') \<and>
    global_depth t' \<le> 31"
  using assms(2-6)
proof (induction kvs arbitrary: t)
  case Nil
  then show ?case by simp
next
  case (Cons p kvs)
  obtain k v where p: "p = (k, v)" by (cases p)
  with Cons.prems(1) have kA: "k \<in> A" by simp
  have "content h t k \<noteq> None \<or>
     card {k'. content h t k' \<noteq> None \<and> h k' mod 2 ^ 31 = h k mod 2 ^ 31} < bucket_size t"
  proof (cases "content h t k")
    case None
    have "card {k'. content h t k' \<noteq> None \<and> h k' mod 2 ^ 31 = h k mod 2 ^ 31} = 0"
      unfolding no_collision [OF assms(1) Cons.prems(5) kA None] by simp
    with Cons.prems(4) show ?thesis by simp
  next
    case (Some w)
    then show ?thesis by simp
  qed
  from Insert_total [OF Cons.prems(2,3,4) this, of v] obtain t1 where
    s: "Insert h k v t = Some (Inr t1)" and g1: "global_depth t1 \<le> 31" by blast
  from Insert_partial [OF s Cons.prems(2) g1] Cons.prems(4)
  have t1: "tinv h t1" "0 < bucket_size t1" "content h t1 = (content h t)(k \<mapsto> v)" by simp_all
  from t1(3) Cons.prems(5) kA have "{k'. content h t1 k' \<noteq> None} \<subseteq> A" by auto
  moreover from Cons.prems(1) have "fst ` set kvs \<subseteq> A" by simp
  ultimately show ?case using Cons.IH [OF _ t1(1) g1 t1(2)] s p by simp
qed

lemma slot_mask_upto_31:
  assumes "table_after h c ops = Some (Inr t)" "global_depth t \<le> 31" "i < length (dir t)"
    "p \<in> set (list_b (heap t ! (dir t ! i)))"
  shows "dir t ! i < length (heap t) \<and>
    GetLowKBit (depth (heap t ! (dir t ! i))) (h (fst p)) =
      GetLowKBit (depth (heap t ! (dir t ! i))) i"
proof -
  from table_after_inv [OF assms(1,2)] have inv: "tinv h t" by simp
  from tinv_depth [OF inv assms(3)] assms(2) have "depth (heap t ! (dir t ! i)) \<le> 31" by simp
  with tinv_addr [OF inv assms(3)] tinv_mask [OF inv assms(3,4)] show ?thesis
    by (simp add: GetLowKBit_eq_iff)
qed

lemma bucket_sharing_upto_31:
  assumes "table_after h c ops = Some (Inr t)" "global_depth t \<le> 31" "a < length (heap t)"
  shows "length (dir t) = 2 ^ global_depth t \<and> num_buckets t = length (heap t) \<and>
    depth (heap t ! a) \<le> global_depth t \<and>
    card {i. i < length (dir t) \<and> dir t ! i = a} = 2 ^ (global_depth t - depth (heap t ! a)) \<and>
    (\<exists>s. \<forall>i < length (dir t). dir t ! i = a \<longleftrightarrow> GetLowKBit (depth (heap t ! a)) i = s)"
proof -
  let ?d = "depth (heap t ! a)"
  from table_after_inv [OF assms(1,2)] have inv: "tinv h t" by simp
  from tinv_ref [OF inv assms(3)] obtain i0 where i0: "i0 < length (dir t)" "dir t ! i0 = a"
    by blast
  have len: "length (dir t) = 2 ^ global_depth t" by (rule tinv_length [OF inv])
  have dg: "?d \<le> global_depth t" using tinv_depth [OF inv i0(1)] i0(2) by simp
  with assms(2) have d31: "?d \<le> 31" by simp
  have sig: "dir t ! i = a \<longleftrightarrow> i mod 2 ^ ?d = i0 mod 2 ^ ?d" if "i < length (dir t)" for i
    using tinv_share [OF inv i0(1) that] by (auto simp: i0(2))
  then have "{i. i < length (dir t) \<and> dir t ! i = a} =
    {i. i < 2 ^ global_depth t \<and> i mod 2 ^ ?d = i0 mod 2 ^ ?d}"
    by (auto simp: len)
  moreover have "i0 mod 2 ^ ?d < 2 ^ ?d" by simp
  ultimately have "card {i. i < length (dir t) \<and> dir t ! i = a} = 2 ^ (global_depth t - ?d)"
    using card_slots [OF _ dg] by simp
  moreover have "\<forall>i < length (dir t). dir t ! i = a \<longleftrightarrow> GetLowKBit ?d i = GetLowKBit ?d i0"
    using sig by (simp add: GetLowKBit_eq_iff [OF d31])
  ultimately show ?thesis using len dg tinv_num [OF inv] by blast
qed

lemma inserts_not_lost_upto_31:
  assumes "table_after h c (map (\<lambda>(k, v). InsertOp k v) kvs) = Some (Inr t)"
    "global_depth t \<le> 31"
  shows "Find h t k = Inr (map_of (rev kvs) k)"
proof -
  obtain t0 :: "('a, 'b) ExtendibleHashTable" where t0: "new_table c = Inr t0"
    by (simp add: new_table_def)
  from assms(1) t0 have r: "table_replay h t0 (map (\<lambda>(k, v). InsertOp k v) kvs) = Some (Inr t)"
    by (simp add: table_after_def)
  have "content h t0 = Map.empty" by (rule ext) (rule content_new [OF t0])
  with replay_inserts_content [OF tinv_new [OF t0] r assms(2)]
  have "content h t = map_of (rev kvs)" by simp
  with table_after_inv [OF assms] show ?thesis
    by (simp add: Find_content [OF _ assms(2)])
qed

lemma inserts_return_upto_31:
  assumes "inj_on (\<lambda>k. h k mod 2 ^ 31) (fst ` set kvs)" "0 < c"
  shows "\<exists>t. table_after h c (map (\<lambda>(k, v). InsertOp k v) kvs) = Some (Inr t) \<and>
    global_depth t \<le> 31"
proof -
  obtain t0 :: "('a, 'b) ExtendibleHashTable" where t0: "new_table c = Inr t0"
    by (simp add: new_table_def)
  then have b: "bucket_size t0 = c" "global_depth t0 = 0" by (auto simp: new_table_def)
  have "{k'. content h t0 k' \<noteq> None} \<subseteq> fst ` set kvs" by (simp add: content_new [OF t0])
  from replay_inserts_total [OF assms(1) subset_refl tinv_new [OF t0] _ _ this] b assms(2) t0
  show ?thesis by (simp add: table_after_def)
qed

lemma Insert_terminates_upto_31:
  assumes "0 < c" "table_after h c ops = Some (Inr t)" "global_depth t \<le> 31"
    "(\<exists>w. Find h t k = Inr (Some w)) \<or>
     card {k'. (\<exists>w. Find h t k' = Inr (Some w)) \<and> h k' mod 2 ^ 31 = h k mod 2 ^ 31} < c"
  shows "\<exists>t'. Insert h k v t = Some (Inr t') \<and> global_depth t' \<le> 31 \<and>
    Find h t' k = Inr (Some v) \<and> (\<forall>k'. k' \<noteq> k \<longrightarrow> Find h t' k' = Find h t k')"
proof -
  from table_after_inv [OF assms(2,3)] assms(1) have inv: "tinv h t" and bs: "bucket_size t = c"
    and c: "0 < bucket_size t" by simp_all
  note fc = Find_content [OF inv assms(3)]
  have "{k'. (\<exists>w. Find h t k' = Inr (Some w)) \<and> h k' mod 2 ^ 31 = h k mod 2 ^ 31} =
    {k'. content h t k' \<noteq> None \<and> h k' mod 2 ^ 31 = h k mod 2 ^ 31}"
    by (auto simp: fc)
  with assms(4) have "content h t k \<noteq> None \<or>
    card {k'. content h t k' \<noteq> None \<and> h k' mod 2 ^ 31 = h k mod 2 ^ 31} < bucket_size t"
    by (auto simp: fc bs)
  from Insert_total [OF inv assms(3) c this, of v] obtain t' where
    t': "Insert h k v t = Some (Inr t')" "global_depth t' \<le> 31" by blast
  from Insert_partial [OF t'(1) inv t'(2)] have "tinv h t'" "content h t' = (content h t)(k \<mapsto> v)"
    by simp_all
  with t' fc show ?thesis by (simp add: Find_content)
qed

subsection \<open>A key that never fits\<close>

lemma mod_pow2_zero_le:
  assumes "(n::nat) mod 2 ^ b = 0" "a \<le> b"
  shows "n mod 2 ^ a = 0"
proof -
  from assms(2) have "(2::nat) ^ a dvd 2 ^ b" by (rule le_imp_power_dvd)
  moreover from assms(1) have "(2::nat) ^ b dvd n" by (simp add: dvd_eq_mod_eq_0)
  ultimately have "(2::nat) ^ a dvd n" by (rule dvd_trans)
  then show ?thesis by (simp add: dvd_eq_mod_eq_0)
qed

lemma not_bit_mod_pow2_zero:
  assumes "(n::nat) mod 2 ^ b = 0" "a < b"
  shows "\<not> bit n a"
proof -
  have "bit n a = bit (n mod 2 ^ b) a" using assms(2) by (simp add: bit_mod_pow2)
  with assms(1) show ?thesis by simp
qed

lemma pinned_step:
  assumes "pinned h k t"
  shows "\<exists>t'. Insert_body h k v t = Inr t' \<and> pinned h k t'"
proof -
  let ?a = "dir t ! 0"
  let ?b = "heap t ! ?a"
  let ?d = "depth ?b"
  from assms have d0: "dir t \<noteq> []" and a: "?a < length (heap t)" and dg: "?d \<le> global_depth t"
    and full: "Bucket_IsFull ?b" and ne: "list_b ?b \<noteq> []" and ab: "k \<notin> fst ` set (list_b ?b)"
    and z: "list_all (\<lambda>p. h (fst p) mod 2 ^ 32 = 0) (list_b ?b)" and zk: "h k mod 2 ^ 31 = 0"
    by (simp_all add: pinned_def)
  have "global_depth t mod 32 \<le> 31" by simp
  from mod_pow2_zero_le [OF zk this] have io: "IndexOf h t k = 0" by (simp add: IndexOf_mod32)
  from d0 a have sb: "slot_bucket t 0 = Inr ?a" by (simp add: slot_bucket_def)
  from ab full have bi: "Bucket_Insert k v ?b = (False, ?b)"
    by (simp add: Bucket_Insert_absent)
  define t1 where "t1 = (if global_depth t = ?d then double_dir t else t)"
  have h1: "heap t1 = heap t" and g1: "?d < global_depth t1" and d1: "dir t1 \<noteq> []"
    and s1: "dir t1 ! 0 = ?a" and bs1: "bucket_size t1 = bucket_size t"
    using dg d0 by (auto simp: t1_def double_dir_def nth_append)
  have stay: "\<forall>p \<in> set (list_b ?b). TestKBit ?d (h (fst p)) = 0"
  proof
    fix p assume "p \<in> set (list_b ?b)"
    with z have "h (fst p) mod 2 ^ 32 = 0" by (simp add: list_all_iff)
    moreover have "?d mod 32 < 32" by simp
    ultimately have "\<not> bit (h (fst p)) (?d mod 32)" by (rule not_bit_mod_pow2_zero)
    then show "TestKBit ?d (h (fst p)) = 0" by (simp add: TestKBit_zero32)
  qed
  obtain p ps where l: "list_b ?b = p # ps" using ne by (cases "list_b ?b") auto
  define nb :: "('a, 'b) Bucket" where "nb = new_bucket (bucket_size t) (?d + 1)"
  define t2 where "t2 = t1\<lparr>num_buckets := num_buckets t1 + 1,
      dir := redirect ?d (GetLowKBit ?d (h (fst p))) (length (heap t)) (dir t1),
      heap := (heap t)[?a := ?b\<lparr>depth := ?d + 1, list_b := list_b ?b\<rparr>] @ [nb]\<rparr>"
  have rd: "RedistributeBucket h t1 ?a = Inr t2"
    using move_items_stay [OF stay, of nb]
    by (simp add: RedistributeBucket_def h1 bs1 Let_def l t2_def nb_def)
  have body: "Insert_body h k v t = Inr t2"
    using dg g1 rd
    by (simp add: Insert_body_def io sb bi Let_def flip: t1_def)
  have "TestKBit ?d 0 = 0" by (simp add: TestKBit_zero32)
  moreover from d1 have len: "0 < length (dir t1)" by simp
  ultimately have s2: "dir t2 ! 0 = ?a"
    by (simp add: t2_def nth_redirect32 [OF len] s1)
  have "length (dir t2) = length (dir t1)" by (simp add: t2_def)
  with len have d2: "dir t2 \<noteq> []" by auto
  have b2: "heap t2 ! ?a = ?b\<lparr>depth := ?d + 1\<rparr>" using a by (simp add: t2_def nth_append)
  have "pinned h k t2"
    unfolding pinned_def s2 b2 using d2 a g1 full ne ab z zk
    by (simp add: t2_def Bucket_IsFull_def)
  with body show ?thesis by blast
qed

lemma pinned_diverges:
  assumes "pinned h k t"
  shows "Insert h k v t = None"
proof (rule ccontr)
  assume "Insert h k v t \<noteq> None"
  then obtain r where r: "Insert h k v t = Some r" by auto
  have "\<not> pinned h k t"
  proof (rule Insert.raw_induct [where P = "\<lambda>h k v t r. \<not> pinned h k t", OF _ r])
    fix ins :: "('a \<Rightarrow> nat) \<Rightarrow> 'a \<Rightarrow> 'b \<Rightarrow> ('a, 'b) ExtendibleHashTable \<Rightarrow>
       (error + ('a, 'b) ExtendibleHashTable) option"
    fix h k v t r
    assume IH: "\<And>h k v t r. ins h k v t = Some r \<Longrightarrow> \<not> pinned h k t"
      and body: "(case Insert_body h k v t of Inl r \<Rightarrow> Some r | Inr t' \<Rightarrow> ins h k v t') = Some r"
    show "\<not> pinned h k t"
    proof
      assume "pinned h k t"
      from pinned_step [OF this, of v] obtain t' where
        t': "Insert_body h k v t = Inr t'" "pinned h k t'" by blast
      with body have "ins h k v t' = Some r" by simp
      from IH [OF this] t'(2) show False by simp
    qed
  qed
  with assms show False by simp
qed

lemma int_hash_0: "int_hash 0 = 0"
  by (simp add: int_hash_def to_size_t_def)

lemma int_hash_min: "int_hash (- 2147483648) = 18446744071562067968"
  by (simp add: int_hash_def to_size_t_def)

subsection \<open>The rounds of the loop up to depth 32\<close>

lemma frameI:
  assumes "length (dir t) \<le> length (dir t')" "\<And>i. i < length (dir t) \<Longrightarrow> dir t' ! i = dir t ! i"
    "length (heap t) \<le> length (heap t')"
    "\<And>j. j < length (heap t) \<Longrightarrow> j \<noteq> a \<Longrightarrow> heap t' ! j = heap t ! j"
  shows "frame a t t'"
proof -
  have "\<forall>i \<in> set [0 ..< length (dir t)]. dir t' ! i = dir t ! i" using assms(2) by simp
  moreover have "\<forall>j \<in> set [0 ..< length (heap t)]. j = a \<or> heap t' ! j = heap t ! j"
  proof
    fix j assume "j \<in> set [0 ..< length (heap t)]"
    then have "j < length (heap t)" by simp
    with assms(4) [of j] show "j = a \<or> heap t' ! j = heap t ! j" by blast
  qed
  ultimately show ?thesis using assms(1,3) unfolding frame_def list_all_iff by blast
qed

lemma frame_dir: "frame a t t' \<Longrightarrow> i < length (dir t) \<Longrightarrow> dir t' ! i = dir t ! i"
  unfolding frame_def list_all_iff by simp

lemma frame_heap: "frame a t t' \<Longrightarrow> j < length (heap t) \<Longrightarrow> j \<noteq> a \<Longrightarrow> heap t' ! j = heap t ! j"
  unfolding frame_def list_all_iff by auto

lemma frame_len: "frame a t t' \<Longrightarrow> length (dir t) \<le> length (dir t') \<and> length (heap t) \<le> length (heap t')"
  unfolding frame_def by simp

lemma frame_refl: "frame a t t"
  by (rule frameI) simp_all

lemma frame_trans:
  assumes "frame a t t'" "frame a t' t''"
  shows "frame a t t''"
proof (rule frameI)
  from frame_len [OF assms(1)] frame_len [OF assms(2)]
  show "length (dir t) \<le> length (dir t'')" "length (heap t) \<le> length (heap t'')" by simp_all
next
  fix i assume i: "i < length (dir t)"
  with frame_len [OF assms(1)] have "i < length (dir t')" by simp
  from frame_dir [OF assms(2) this] frame_dir [OF assms(1) i] show "dir t'' ! i = dir t ! i" by simp
next
  fix j assume j: "j < length (heap t)" "j \<noteq> a"
  with frame_len [OF assms(1)] have "j < length (heap t')" by simp
  from frame_heap [OF assms(2) this j(2)] frame_heap [OF assms(1) j]
  show "heap t'' ! j = heap t ! j" by simp
qed

text \<open>One round of the loop on a stage: the directory doubles and the bucket splits.\<close>

lemma stage_round:
  assumes st: "stage h k p a t" and g: "global_depth t \<le> 31" and kp: "fst p \<noteq> k"
  shows "\<exists>t'. Insert_body h k v t = Inr t' \<and> global_depth t' = global_depth t + 1 \<and>
    bucket_size t' = 1 \<and> length (dir t') = 2 ^ global_depth t' \<and> frame a t t' \<and>
    length (heap t') = length (heap t) + 1 \<and>
    heap t' ! a = \<lparr>size_b = 1, depth = global_depth t + 1,
      list_b = (if bit (h (fst p)) (global_depth t) then [] else [p])\<rparr> \<and>
    heap t' ! length (heap t) = \<lparr>size_b = 1, depth = global_depth t + 1,
      list_b = (if bit (h (fst p)) (global_depth t) then [p] else [])\<rparr>"
proof -
  let ?g = "global_depth t"
  let ?b = "heap t ! a"
  define s where "s = h k mod 2 ^ 31"
  from st have bs: "bucket_size t = 1" and len: "length (dir t) = 2 ^ ?g"
    and s: "s < length (dir t)" and sa: "dir t ! s = a" and a: "a < length (heap t)"
    and b: "?b = \<lparr>size_b = 1, depth = ?g, list_b = [p]\<rparr>"
    unfolding s_def by (simp_all add: stage_def)
  have "s mod 2 ^ ?g = h k mod 2 ^ ?g" unfolding s_def by (rule mod_pow2_mod_pow2 [OF g])
  moreover have "s mod 2 ^ ?g = s" using s by (simp only: len mod_less)
  ultimately have "h k mod 2 ^ ?g = s" by (simp only:)
  then have io: "IndexOf h t k = s" by (simp only: IndexOf_mod [OF g])
  from s sa a have sb: "slot_bucket t s = Inr a" by (simp add: slot_bucket_def)
  have bi: "Bucket_Insert k v ?b = (False, ?b)"
    using kp by (simp add: b Bucket_Insert_def Bucket_IsFull_def)
  define nb :: "('a, 'b) Bucket" where
    "nb = \<lparr>size_b = 1, depth = ?g + 1, list_b = (if bit (h (fst p)) ?g then [p] else [])\<rparr>"
  define kept where "kept = (if bit (h (fst p)) ?g then [] else [p])"
  have mv: "move_items h ?g [p] (new_bucket 1 (?g + 1)) = Inr (kept, nb)"
    using g by (simp add: TestKBit_zero TestKBit_bit new_bucket_def Bucket_IsFull_def
        Bucket_Insert_def kept_def nb_def)
  define t' where "t' = (double_dir t)\<lparr>num_buckets := num_buckets t + 1,
      dir := redirect ?g (GetLowKBit ?g (h (fst p))) (length (heap t)) (dir t @ dir t),
      heap := (heap t)[a := \<lparr>size_b = 1, depth = ?g + 1, list_b = kept\<rparr>] @ [nb]\<rparr>"
  have rd: "RedistributeBucket h (double_dir t) a = Inr t'"
    using mv by (simp add: RedistributeBucket_def double_dir_def Let_def b bs t'_def)
  have db: "depth ?b = ?g" by (simp add: b)
  have gd: "global_depth (double_dir t) = ?g + 1" by (simp add: double_dir_def)
  have body: "Insert_body h k v t = Inr t'"
    by (simp add: Insert_body_def io sb bi Let_def db gd rd)
  have fr: "frame a t t'"
  proof (rule frameI)
    fix i assume i: "i < length (dir t)"
    then have "i < 2 ^ ?g" by (simp add: len)
    then have "\<not> bit i ?g" by (rule bit_below_pow2)
    then have "TestKBit ?g i = 0" using g by (simp add: TestKBit_zero)
    moreover have "i < length (dir t @ dir t)" using i by simp
    ultimately show "dir t' ! i = dir t ! i"
      using i by (simp add: t'_def nth_redirect32 nth_append)
  next
    fix j assume "j < length (heap t)" "j \<noteq> a"
    then show "heap t' ! j = heap t ! j" by (simp add: t'_def nth_append)
  qed (simp_all add: t'_def)
  have "heap t' ! a = \<lparr>size_b = 1, depth = ?g + 1, list_b = kept\<rparr>"
    using a by (simp add: t'_def nth_append)
  moreover have "heap t' ! length (heap t) = nb" by (simp add: t'_def nth_append)
  moreover have "global_depth t' = ?g + 1" "bucket_size t' = 1"
    "length (dir t') = 2 ^ global_depth t'" "length (heap t') = length (heap t) + 1"
    by (simp_all add: t'_def double_dir_def bs len)
  ultimately show ?thesis using body fr unfolding kept_def nb_def by blast
qed

lemma stage_step:
  assumes st: "stage h k p a t" and g: "global_depth t \<le> 30" and kp: "fst p \<noteq> k"
    and nbit: "\<not> bit (h (fst p)) (global_depth t)"
  shows "\<exists>t'. Insert_body h k v t = Inr t' \<and> stage h k p a t' \<and>
    global_depth t' = global_depth t + 1 \<and> frame a t t'"
proof -
  from g have "global_depth t \<le> 31" by simp
  from stage_round [OF st this kp, of v] nbit obtain t' where
    t': "Insert_body h k v t = Inr t'" "global_depth t' = global_depth t + 1"
      "bucket_size t' = 1" "length (dir t') = 2 ^ global_depth t'" "frame a t t'"
      "length (heap t') = length (heap t) + 1"
      "heap t' ! a = \<lparr>size_b = 1, depth = global_depth t + 1, list_b = [p]\<rparr>"
    by auto
  from st have s: "h k mod 2 ^ 31 < length (dir t)" and sa: "dir t ! (h k mod 2 ^ 31) = a"
    and a: "a < length (heap t)" by (simp_all add: stage_def)
  from frame_len [OF t'(5)] s have "h k mod 2 ^ 31 < length (dir t')" by simp
  moreover from frame_dir [OF t'(5) s] sa have "dir t' ! (h k mod 2 ^ 31) = a" by simp
  moreover from a t'(6) have "a < length (heap t')" by simp
  ultimately have "stage h k p a t'" using t'(2,3,4,7) by (simp add: stage_def)
  with t' show ?thesis by blast
qed

lemma stage_stretch:
  assumes "stage h k p a t" "global_depth t \<le> 31" "fst p \<noteq> k"
    "\<forall>e. global_depth t \<le> e \<and> e < 31 \<longrightarrow> \<not> bit (h (fst p)) e"
    "31 - global_depth t = n"
  shows "\<exists>t'. Insert h k v t = Insert h k v t' \<and> stage h k p a t' \<and>
    global_depth t' = 31 \<and> frame a t t'"
  using assms
proof (induction n arbitrary: t)
  case 0
  then have "global_depth t = 31" by simp
  with 0 show ?case by (intro exI [of _ t]) (simp add: frame_refl)
next
  case (Suc n)
  then have g: "global_depth t \<le> 30" by simp
  with Suc.prems(4) have "\<not> bit (h (fst p)) (global_depth t)" by simp
  from stage_step [OF Suc.prems(1) g Suc.prems(3) this, of v] obtain t1 where
    t1: "Insert_body h k v t = Inr t1" "stage h k p a t1"
      "global_depth t1 = global_depth t + 1" "frame a t t1" by blast
  have "\<exists>t'. Insert h k v t1 = Insert h k v t' \<and> stage h k p a t' \<and>
    global_depth t' = 31 \<and> frame a t1 t'"
  proof (rule Suc.IH [OF t1(2) _ Suc.prems(3)])
    show "global_depth t1 \<le> 31" using g t1(3) by simp
    show "\<forall>e. global_depth t1 \<le> e \<and> e < 31 \<longrightarrow> \<not> bit (h (fst p)) e"
      using Suc.prems(4) t1(3) by simp
    show "31 - global_depth t1 = n" using Suc.prems(5) t1(3) by simp
  qed
  then obtain t' where t': "Insert h k v t1 = Insert h k v t'" "stage h k p a t'"
    "global_depth t' = 31" "frame a t1 t'" by blast
  have "Insert h k v t = Insert h k v t1" by (subst Insert.simps) (simp add: t1(1))
  with t' frame_trans [OF t1(4) t'(4)] show ?case by auto
qed

text \<open>The round at depth 31 and the rounds before it, up to the table of depth 32.\<close>

lemma stage_to_32:
  assumes st: "stage h k p a t" and g: "global_depth t \<le> 31" and kp: "fst p \<noteq> k"
    and low: "\<forall>e. global_depth t \<le> e \<and> e < 31 \<longrightarrow> \<not> bit (h (fst p)) e"
  shows "\<exists>t'. Insert h k v t = Insert h k v t' \<and> global_depth t' = 32 \<and> bucket_size t' = 1 \<and>
    frame a t t'"
proof -
  from stage_stretch [OF st g kp low refl, of v] obtain t1 where
    t1: "Insert h k v t = Insert h k v t1" "stage h k p a t1" "global_depth t1 = 31" "frame a t t1"
    by blast
  from t1(3) have "global_depth t1 \<le> 31" by simp
  from stage_round [OF t1(2) this kp, of v] obtain t2 where
    t2: "Insert_body h k v t1 = Inr t2" "global_depth t2 = global_depth t1 + 1"
      "bucket_size t2 = 1" "frame a t1 t2" by blast
  have "Insert h k v t1 = Insert h k v t2" by (subst Insert.simps) (simp add: t2(1))
  with t1 t2 frame_trans [OF t1(4) t2(4)] show ?thesis by auto
qed

text \<open>At a depth that is a multiple of 32 the index of every key is 0.\<close>

lemma Insert_fits_at_32:
  assumes "global_depth t mod 32 = 0" "dir t \<noteq> []" "dir t ! 0 < length (heap t)"
    "list_b (heap t ! (dir t ! 0)) = []" "0 < size_b (heap t ! (dir t ! 0))"
  shows "Insert h k v t =
    Some (Inr (t\<lparr>heap := (heap t)[dir t ! 0 := (heap t ! (dir t ! 0))\<lparr>list_b := [(k, v)]\<rparr>]\<rparr>))"
proof -
  from assms(1) have io: "IndexOf h t k = 0" by (simp add: IndexOf_mod32)
  from assms(2,3) have sb: "slot_bucket t 0 = Inr (dir t ! 0)" by (simp add: slot_bucket_def)
  from assms(4,5) have "Bucket_Insert k v (heap t ! (dir t ! 0)) =
    (True, (heap t ! (dir t ! 0))\<lparr>list_b := [(k, v)]\<rparr>)"
    by (simp add: Bucket_Insert_def Bucket_IsFull_def)
  then show ?thesis
    by (subst Insert.simps) (simp add: Insert_body_def io sb)
qed

lemma Find_at_32:
  assumes "global_depth t mod 32 = 0" "dir t \<noteq> []" "dir t ! 0 < length (heap t)"
  shows "Find h t k = Inr (Bucket_Find k (heap t ! (dir t ! 0)))"
  using assms by (simp add: Find_def IndexOf_mod32 slot_bucket_def)

subsection \<open>Two insertions that reach depth 32\<close>

lemmas hash_run_defs = table_after_def new_table_def new_bucket_def Insert_body_def
  IndexOf_mod32 slot_bucket_def Bucket_Insert_def Bucket_IsFull_def RedistributeBucket_def
  double_dir_def redirect_def TestKBit_bit32 TestKBit_zero32 GetLowKBit_eq_iff32 Let_def bit_Suc_0_iff

lemma int_hash_1: "int_hash 1 = 1"
  by (simp add: int_hash_def to_size_t_def)

lemma int_hash_3: "int_hash 3 = 3"
  by (simp add: int_hash_def to_size_t_def)

lemma int_hash_5: "int_hash 5 = 5"
  by (simp add: int_hash_def to_size_t_def)

lemma int_hash_min1: "int_hash (- 2147483647) = 18446744071562067969"
  by (simp add: int_hash_def to_size_t_def)

lemma int_hash_min3: "int_hash (- 2147483645) = 18446744071562067971"
  by (simp add: int_hash_def to_size_t_def)

lemma not_bit_low:
  assumes "(n::nat) mod 2 ^ 31 = m" "m < 2 ^ d" "d \<le> e" "e < 31"
  shows "\<not> bit n e"
proof -
  have "bit n e = bit (n mod 2 ^ 31) e" using assms(4) by (simp only: bit_mod_pow2)
  moreover have "m < 2 ^ e" using assms(2,3)
    by (meson less_le_trans one_le_numeral power_increasing)
  ultimately show ?thesis using assms(1) by (simp add: bit_below_pow2)
qed

lemma table_replay_single: "table_replay h t [x] = table_step h t x"
  by (simp split: option.splits sum.splits)

lemma table_replay_snoc:
  "table_replay h t xs = Some (Inr t') \<Longrightarrow> table_replay h t (xs @ [x]) = table_step h t' x"
proof (induction xs arbitrary: t)
  case Nil
  then show ?case by (simp only: append_Nil table_replay_single) simp
next
  case (Cons y ys)
  from Cons.prems obtain t1 where t1: "table_step h t y = Some (Inr t1)"
    "table_replay h t1 ys = Some (Inr t')" by (auto split: option.splits sum.splits)
  from Cons.IH [OF t1(2)] t1(1) show ?case by simp
qed

lemma table_after_snoc:
  "table_after h c xs = Some (Inr t) \<Longrightarrow> table_after h c (xs @ [x]) = table_step h t x"
  by (simp add: table_after_def new_table_def table_replay_snoc)

lemma first_B:
  "table_after int_hash 1 [InsertOp (- 2147483647) (10::nat)] =
     Some (Inr \<lparr>global_depth = 0, bucket_size = 1, num_buckets = 1, dir = [0],
                heap = [\<lparr>size_b = 1, depth = 0, list_b = [(- 2147483647, 10)]\<rparr>]\<rparr>)"
  by (simp add: hash_run_defs Insert.simps)

lemma body_B:
  "Insert_body int_hash 1 (11::nat)
     \<lparr>global_depth = 0, bucket_size = 1, num_buckets = 1, dir = [0],
      heap = [\<lparr>size_b = 1, depth = 0, list_b = [(- 2147483647, 10)]\<rparr>]\<rparr> =
   Inr \<lparr>global_depth = 1, bucket_size = 1, num_buckets = 2, dir = [0, 1],
        heap = [\<lparr>size_b = 1, depth = 1, list_b = []\<rparr>,
                \<lparr>size_b = 1, depth = 1, list_b = [(- 2147483647, 10)]\<rparr>]\<rparr>"
  by (simp add: hash_run_defs int_hash_min1 int_hash_1)

lemma run_B:
  "\<exists>t. table_after int_hash 1 [InsertOp (- 2147483647) (10::nat), InsertOp 1 11] = Some (Inr t) \<and>
     global_depth t = 32 \<and> dir t \<noteq> [] \<and> dir t ! 0 = 0 \<and> 0 < length (heap t) \<and>
     heap t ! 0 = \<lparr>size_b = 1, depth = 1, list_b = [(1, 11)]\<rparr>"
proof -
  let ?K = "- 2147483647 :: 32 word"
  let ?t0 = "\<lparr>global_depth = 0, bucket_size = 1, num_buckets = 1, dir = [0],
      heap = [\<lparr>size_b = 1, depth = 0, list_b = [(?K, 10::nat)]\<rparr>]\<rparr>"
  define t1 where "t1 = \<lparr>global_depth = 1, bucket_size = 1, num_buckets = 2, dir = [0, 1],
        heap = [\<lparr>size_b = 1, depth = 1, list_b = []\<rparr>,
                \<lparr>size_b = 1, depth = 1, list_b = [(?K, 10::nat)]\<rparr>]\<rparr>"
  have i1: "Insert int_hash 1 11 ?t0 = Insert int_hash 1 11 t1"
    unfolding t1_def by (subst Insert.simps) (simp only: body_B sum.case)
  have st: "stage int_hash 1 (?K, 10) 1 t1"
    by (simp add: stage_def t1_def int_hash_1)
  have g1: "global_depth t1 \<le> 31" by (simp add: t1_def)
  have low: "\<forall>e. global_depth t1 \<le> e \<and> e < 31 \<longrightarrow> \<not> bit (int_hash (fst (?K, 10::nat))) e"
  proof (intro allI impI)
    fix e assume "global_depth t1 \<le> e \<and> e < 31"
    then have e: "1 \<le> e" "e < 31" by (simp_all add: t1_def)
    have "int_hash ?K mod 2 ^ 31 = 1" by (simp add: int_hash_min1)
    from not_bit_low [OF this _ e] show "\<not> bit (int_hash (fst (?K, 10::nat))) e" by simp
  qed
  from stage_to_32 [OF st g1 _ low, of 11] obtain t2 where
    t2: "Insert int_hash 1 11 t1 = Insert int_hash 1 11 t2" "global_depth t2 = 32"
      "bucket_size t2 = 1" "frame 1 t1 t2" by auto
  have d0: "dir t2 ! 0 = 0" using frame_dir [OF t2(4), of 0] by (simp add: t1_def)
  have h0: "heap t2 ! 0 = \<lparr>size_b = 1, depth = 1, list_b = []\<rparr>"
    using frame_heap [OF t2(4), of 0] by (simp add: t1_def)
  have ln: "dir t2 \<noteq> []" "0 < length (heap t2)"
    using frame_len [OF t2(4)] by (auto simp: t1_def)
  define t3 where "t3 = t2\<lparr>heap := (heap t2)[0 := \<lparr>size_b = 1, depth = 1, list_b = [(1, 11)]\<rparr>]\<rparr>"
  have "Insert int_hash 1 11 t2 = Some (Inr t3)"
    using Insert_fits_at_32 [of t2 int_hash 1 11] t2(2) ln d0 h0 by (simp add: t3_def)
  with i1 t2(1) have "Insert int_hash 1 11 ?t0 = Some (Inr t3)" by (simp only:)
  with table_after_snoc [OF first_B, of "InsertOp 1 11"]
  have "table_after int_hash 1 [InsertOp ?K (10::nat), InsertOp 1 11] = Some (Inr t3)"
    by (simp only: append_Cons append_Nil table_step.simps)
  moreover have "global_depth t3 = 32" "dir t3 \<noteq> []" "dir t3 ! 0 = 0" "0 < length (heap t3)"
    "heap t3 ! 0 = \<lparr>size_b = 1, depth = 1, list_b = [(1, 11)]\<rparr>"
    using t2(2) ln d0 by (simp_all add: t3_def)
  ultimately show ?thesis by blast
qed

subsection \<open>A split at depth 32\<close>

lemma bit_3_1: "bit (Suc (Suc (Suc 0))) (Suc 0)"
proof -
  have "bit (3::nat) 1" by (simp add: bit_Suc_0_iff)
  then show ?thesis by (simp only: numeral_3_eq_3 One_nat_def)
qed

lemma first_C:
  "table_after int_hash 1 [InsertOp (- 2147483645) (10::nat)] =
     Some (Inr \<lparr>global_depth = 0, bucket_size = 1, num_buckets = 1, dir = [0],
                heap = [\<lparr>size_b = 1, depth = 0, list_b = [(- 2147483645, 10)]\<rparr>]\<rparr>)"
  by (simp add: hash_run_defs Insert.simps)

lemma body_C1:
  "Insert_body int_hash 3 (11::nat)
     \<lparr>global_depth = 0, bucket_size = 1, num_buckets = 1, dir = [0],
      heap = [\<lparr>size_b = 1, depth = 0, list_b = [(- 2147483645, 10)]\<rparr>]\<rparr> =
   Inr \<lparr>global_depth = 1, bucket_size = 1, num_buckets = 2, dir = [0, 1],
        heap = [\<lparr>size_b = 1, depth = 1, list_b = []\<rparr>,
                \<lparr>size_b = 1, depth = 1, list_b = [(- 2147483645, 10)]\<rparr>]\<rparr>"
  by (simp add: hash_run_defs int_hash_min3 int_hash_3)

lemma body_C2:
  "Insert_body int_hash 3 (11::nat)
     \<lparr>global_depth = 1, bucket_size = 1, num_buckets = 2, dir = [0, 1],
        heap = [\<lparr>size_b = 1, depth = 1, list_b = []\<rparr>,
                \<lparr>size_b = 1, depth = 1, list_b = [(- 2147483645, 10)]\<rparr>]\<rparr> =
   Inr \<lparr>global_depth = 2, bucket_size = 1, num_buckets = 3, dir = [0, 1, 0, 2],
        heap = [\<lparr>size_b = 1, depth = 1, list_b = []\<rparr>,
                \<lparr>size_b = 1, depth = 2, list_b = []\<rparr>,
                \<lparr>size_b = 1, depth = 2, list_b = [(- 2147483645, 10)]\<rparr>]\<rparr>"
  by (simp add: hash_run_defs int_hash_min3 int_hash_3 bit_3_1)

text \<open>A split below the global depth, of the bucket of slot 0, whose only pair moves.\<close>

lemma split_at_32:
  assumes g: "global_depth t = 32" and d0: "dir t ! 0 = 0" and d2: "dir t ! 2 = 0"
    and len: "2 < length (dir t)" and hl: "0 < length (heap t)"
    and b: "heap t ! 0 = \<lparr>size_b = 1, depth = 1, list_b = [(3, w)]\<rparr>"
    and bs: "bucket_size t = 1"
  shows "\<exists>t'. Insert_body int_hash 5 v t = Inr t' \<and> global_depth t' = 32 \<and>
    dir t' ! 0 = 0 \<and> dir t' ! 2 = 0 \<and> 2 < length (dir t') \<and> 0 < length (heap t') \<and>
    heap t' ! 0 = \<lparr>size_b = 1, depth = 2, list_b = []\<rparr>"
proof -
  from g have io: "IndexOf int_hash t 5 = 0" by (simp add: IndexOf_mod32)
  have l0: "0 < length (dir t)" by (rule less_trans [OF _ len]) simp
  with d0 hl have sb: "slot_bucket t 0 = Inr 0" by (auto simp add: slot_bucket_def)
  have bi: "Bucket_Insert 5 v (heap t ! 0) = (False, heap t ! 0)"
    by (simp add: b Bucket_Insert_def Bucket_IsFull_def)
  define nb :: "(32 word, 'a) Bucket" where "nb = \<lparr>size_b = 1, depth = 2, list_b = [(3, w)]\<rparr>"
  define t' where "t' = t\<lparr>num_buckets := num_buckets t + 1,
      dir := redirect 1 (GetLowKBit 1 (int_hash 3)) (length (heap t)) (dir t),
      heap := (heap t)[0 := \<lparr>size_b = 1, depth = 2, list_b = []\<rparr>] @ [nb]\<rparr>"
  have rd: "RedistributeBucket int_hash t 0 = Inr t'"
    by (simp add: RedistributeBucket_def Let_def b bs t'_def nb_def TestKBit_bit32
        TestKBit_zero32 int_hash_3 new_bucket_def Bucket_IsFull_def Bucket_Insert_def
        bit_Suc_0_iff numeral_2_eq_2)
  have db: "depth (heap t ! 0) = 1" by (simp add: b)
  have body: "Insert_body int_hash 5 v t = Inr t'"
    by (simp add: Insert_body_def io sb bi Let_def db g rd)
  have "TestKBit 1 0 = 0" by (simp add: TestKBit_zero32)
  then have s0: "dir t' ! 0 = 0" by (simp add: t'_def nth_redirect32 [OF l0] d0)
  have "GetLowKBit 1 2 \<noteq> GetLowKBit 1 (int_hash 3)"
    by (simp add: GetLowKBit_eq_iff32 int_hash_3)
  then have s2: "dir t' ! 2 = 0" by (simp add: t'_def nth_redirect32 [OF len] d2)
  have "heap t' ! 0 = \<lparr>size_b = 1, depth = 2, list_b = []\<rparr>"
    using hl by (simp add: t'_def nth_append)
  moreover have "global_depth t' = 32" "2 < length (dir t')" "0 < length (heap t')"
    using g len by (simp_all add: t'_def)
  ultimately show ?thesis using body s0 s2 by blast
qed

lemma run_C:
  "\<exists>t. table_after int_hash 1
         [InsertOp (- 2147483645) (10::nat), InsertOp 3 11, InsertOp 5 12] = Some (Inr t) \<and>
     global_depth t = 32 \<and> 2 < length (dir t) \<and> dir t ! 0 = 0 \<and> dir t ! 2 = 0 \<and>
     0 < length (heap t) \<and> heap t ! 0 = \<lparr>size_b = 1, depth = 2, list_b = [(5, 12)]\<rparr>"
proof -
  let ?K = "- 2147483645 :: 32 word"
  let ?t0 = "\<lparr>global_depth = 0, bucket_size = 1, num_buckets = 1, dir = [0],
      heap = [\<lparr>size_b = 1, depth = 0, list_b = [(?K, 10::nat)]\<rparr>]\<rparr>"
  let ?t1 = "\<lparr>global_depth = 1, bucket_size = 1, num_buckets = 2, dir = [0, 1],
        heap = [\<lparr>size_b = 1, depth = 1, list_b = []\<rparr>,
                \<lparr>size_b = 1, depth = 1, list_b = [(?K, 10::nat)]\<rparr>]\<rparr>"
  define t2 where "t2 = \<lparr>global_depth = 2, bucket_size = 1, num_buckets = 3, dir = [0, 1, 0, 2],
        heap = [\<lparr>size_b = 1, depth = 1, list_b = []\<rparr>,
                \<lparr>size_b = 1, depth = 2, list_b = []\<rparr>,
                \<lparr>size_b = 1, depth = 2, list_b = [(?K, 10::nat)]\<rparr>]\<rparr>"
  have "Insert int_hash 3 11 ?t0 = Insert int_hash 3 11 ?t1"
    by (subst Insert.simps) (simp only: body_C1 sum.case)
  also have "\<dots> = Insert int_hash 3 11 t2"
    unfolding t2_def by (subst Insert.simps) (simp only: body_C2 sum.case)
  finally have i2: "Insert int_hash 3 11 ?t0 = Insert int_hash 3 11 t2" .
  have st: "stage int_hash 3 (?K, 10) 2 t2"
    by (simp add: stage_def t2_def int_hash_3)
  have g2: "global_depth t2 \<le> 31" by (simp add: t2_def)
  have low: "\<forall>e. global_depth t2 \<le> e \<and> e < 31 \<longrightarrow> \<not> bit (int_hash (fst (?K, 10::nat))) e"
  proof (intro allI impI)
    fix e assume "global_depth t2 \<le> e \<and> e < 31"
    then have e: "2 \<le> e" "e < 31" by (simp_all add: t2_def)
    have "int_hash ?K mod 2 ^ 31 = 3" by (simp add: int_hash_min3)
    from not_bit_low [OF this _ e] show "\<not> bit (int_hash (fst (?K, 10::nat))) e" by simp
  qed
  from stage_to_32 [OF st g2 _ low, of 11] obtain t3 where
    t3: "Insert int_hash 3 11 t2 = Insert int_hash 3 11 t3" "global_depth t3 = 32"
      "bucket_size t3 = 1" "frame 2 t2 t3" by auto
  have d0: "dir t3 ! 0 = 0" using frame_dir [OF t3(4), of 0] by (simp add: t2_def)
  have d2: "dir t3 ! 2 = 0" using frame_dir [OF t3(4), of 2] by (simp add: t2_def)
  have h0: "heap t3 ! 0 = \<lparr>size_b = 1, depth = 1, list_b = []\<rparr>"
    using frame_heap [OF t3(4), of 0] by (simp add: t2_def)
  have ln: "2 < length (dir t3)" "0 < length (heap t3)"
    using frame_len [OF t3(4)] by (auto simp: t2_def)
  have "0 < length (dir t3)" by (rule less_trans [OF _ ln(1)]) simp
  then have dn: "dir t3 \<noteq> []" by simp
  define t4 where "t4 = t3\<lparr>heap := (heap t3)[0 := \<lparr>size_b = 1, depth = 1, list_b = [(3, 11)]\<rparr>]\<rparr>"
  have "Insert int_hash 3 11 t3 = Some (Inr t4)"
    using Insert_fits_at_32 [of t3 int_hash 3 11] t3(2) dn ln(2) d0 h0 by (simp add: t4_def)
  with i2 t3(1) have "Insert int_hash 3 11 ?t0 = Some (Inr t4)" by (simp only:)
  with table_after_snoc [OF first_C, of "InsertOp 3 11"]
  have r4: "table_after int_hash 1 [InsertOp ?K (10::nat), InsertOp 3 11] = Some (Inr t4)"
    by (simp only: append_Cons append_Nil table_step.simps)
  have p4: "global_depth t4 = 32" "dir t4 ! 0 = 0" "dir t4 ! 2 = 0" "2 < length (dir t4)"
    "0 < length (heap t4)" "heap t4 ! 0 = \<lparr>size_b = 1, depth = 1, list_b = [(3, 11)]\<rparr>"
    "bucket_size t4 = 1"
    using t3(2,3) ln d0 d2 by (simp_all add: t4_def)
  from split_at_32 [OF p4, of 12] obtain t5 where
    t5: "Insert_body int_hash 5 12 t4 = Inr t5" "global_depth t5 = 32" "dir t5 ! 0 = 0"
      "dir t5 ! 2 = 0" "2 < length (dir t5)" "0 < length (heap t5)"
      "heap t5 ! 0 = \<lparr>size_b = 1, depth = 2, list_b = []\<rparr>" by blast
  define t6 where "t6 = t5\<lparr>heap := (heap t5)[0 := \<lparr>size_b = 1, depth = 2, list_b = [(5, 12)]\<rparr>]\<rparr>"
  have "Insert int_hash 5 12 t4 = Insert int_hash 5 12 t5"
    by (subst Insert.simps) (simp add: t5(1))
  also have "\<dots> = Some (Inr t6)"
  proof -
    have "0 < length (dir t5)" by (rule less_trans [OF _ t5(5)]) simp
    then have "dir t5 \<noteq> []" by simp
    with Insert_fits_at_32 [of t5 int_hash 5 12] t5(2,3,6,7) show ?thesis
      by (simp add: t6_def)
  qed
  finally have "Insert int_hash 5 12 t4 = Some (Inr t6)" .
  with table_after_snoc [OF r4, of "InsertOp 5 12"]
  have "table_after int_hash 1 [InsertOp ?K (10::nat), InsertOp 3 11, InsertOp 5 12] =
    Some (Inr t6)"
    by (simp only: append_Cons append_Nil table_step.simps)
  moreover have "global_depth t6 = 32" "2 < length (dir t6)" "dir t6 ! 0 = 0" "dir t6 ! 2 = 0"
    "0 < length (heap t6)" "heap t6 ! 0 = \<lparr>size_b = 1, depth = 2, list_b = [(5, 12)]\<rparr>"
    using t5(2-6) by (simp_all add: t6_def)
  ultimately show ?thesis by blast
qed

subsection \<open>Claims about the hash table\<close>


text \<open>
  Claim C5. The claim: construction with a bucket capacity of 0 fails with
  \<open>InvalidArgument\<close>, and succeeds for every capacity of at least 1. The constructor
  checks nothing: with capacity 0 it returns a table like with any other.
\<close>

theorem new_table_zero_accepted:
  "(new_table 0 :: error + (nat, nat) ExtendibleHashTable) =
     Inr \<lparr>global_depth = 0, bucket_size = 0, num_buckets = 1, dir = [0],
          heap = [\<lparr>size_b = 0, depth = 0, list_b = []\<rparr>]\<rparr>
   \<and> (new_table 0 :: error + (nat, nat) ExtendibleHashTable) \<noteq> Inl InvalidArgument"
  by (simp add: new_table_def new_bucket_def)

text \<open>
  Claim C5, amended. For every bucket capacity, 0 included, construction succeeds with
  global depth 0, a directory of one slot, and one bucket, which has local depth 0, the
  given capacity and no pair.
\<close>

theorem new_table_any_capacity:
  "\<exists>t. new_table c = Inr t \<and> global_depth t = 0 \<and> bucket_size t = c \<and>
     num_buckets t = 1 \<and> length (heap t) = 1 \<and> length (dir t) = 1 \<and>
     depth (heap t ! (dir t ! 0)) = 0 \<and> size_b (heap t ! (dir t ! 0)) = c \<and>
     list_b (heap t ! (dir t ! 0)) = []"
  by (simp add: new_table_def new_bucket_def)

text \<open>
  Claim C3. The claim: after every successful operation, for every directory slot \<open>i\<close>
  and every key stored in the bucket that slot \<open>i\<close> references, the low \<open>local_depth\<close>
  bits of the hash of the key are the low \<open>local_depth\<close> bits of \<open>i\<close>. It holds while the
  global depth is at most 31 (\<open>slot_mask_upto_31\<close>). On a table of capacity 1 with \<^verbatim>\<open>int\<close>
  keys, \<^verbatim>\<open>Insert(INT_MIN + 1, 10)\<close> and \<^verbatim>\<open>Insert(1, 11)\<close> both return. The two hashes agree
  on their low 31 bits, the second call doubles the directory up to global depth 32, and
  there the mask \<^verbatim>\<open>(1 << 32) - 1\<close> of \<^verbatim>\<open>IndexOf\<close>, computed in 32 bits, is 0: the key 1 goes
  to slot 0 and is stored in its bucket, of local depth 1, although the low bit of its
  hash is 1 and the low bit of the slot 0.
\<close>

theorem Insert_breaks_slot_mask:
  "\<exists>t. table_after int_hash 1 [InsertOp (- 2147483647) (10::nat), InsertOp 1 11] = Some (Inr t) \<and>
     0 < length (dir t) \<and> dir t ! 0 < length (heap t) \<and>
     (1, 11) \<in> set (list_b (heap t ! (dir t ! 0))) \<and>
     GetLowKBit (depth (heap t ! (dir t ! 0))) (int_hash 1) \<noteq>
       GetLowKBit (depth (heap t ! (dir t ! 0))) 0"
proof -
  from run_B obtain t where
    t: "table_after int_hash 1 [InsertOp (- 2147483647) (10::nat), InsertOp 1 11] = Some (Inr t)"
      "global_depth t = 32" "dir t \<noteq> []" "dir t ! 0 = 0" "0 < length (heap t)"
      "heap t ! 0 = \<lparr>size_b = 1, depth = 1, list_b = [(1, 11)]\<rparr>" by blast
  have "GetLowKBit 1 (int_hash 1) \<noteq> GetLowKBit 1 0"
    by (simp add: GetLowKBit_eq_iff32 int_hash_1)
  with t show ?thesis by (intro exI [of _ t]) simp
qed

text \<open>
  Claim C8. The claim: after every successful operation, every bucket of local depth
  \<open>d\<close> is referenced by exactly \<open>2 ^ (global_depth - d)\<close> slots, which all agree on their
  low \<open>d\<close> bits. It holds while the global depth is at most 31
  (\<open>bucket_sharing_upto_31\<close>). On a table of capacity 1 with \<^verbatim>\<open>int\<close> keys,
  \<^verbatim>\<open>Insert(INT_MIN + 3, 10)\<close>, \<^verbatim>\<open>Insert(3, 11)\<close> and \<^verbatim>\<open>Insert(5, 12)\<close> all return. The second
  call reaches global depth 32 and stores the key 3 through slot 0, in the bucket of the
  even slots; the third call splits that bucket, and \<^verbatim>\<open>RedistributeBucket\<close>, which takes
  the signature from the key 3, redirects the slots that end in the bits 11, none of
  which held the bucket. The bucket then has local depth 2 and is still referenced by
  the slots 0 and 2, which differ in their low 2 bits.
\<close>

theorem split_breaks_sharing:
  "\<exists>t. table_after int_hash 1
         [InsertOp (- 2147483645) (10::nat), InsertOp 3 11, InsertOp 5 12] = Some (Inr t) \<and>
     2 < length (dir t) \<and> dir t ! 0 = dir t ! 2 \<and> dir t ! 0 < length (heap t) \<and>
     depth (heap t ! (dir t ! 0)) = 2 \<and> GetLowKBit 2 0 \<noteq> GetLowKBit 2 2"
proof -
  from run_C obtain t where
    t: "table_after int_hash 1
         [InsertOp (- 2147483645) (10::nat), InsertOp 3 11, InsertOp 5 12] = Some (Inr t)"
      "global_depth t = 32" "2 < length (dir t)" "dir t ! 0 = 0" "dir t ! 2 = 0"
      "0 < length (heap t)" "heap t ! 0 = \<lparr>size_b = 1, depth = 2, list_b = [(5, 12)]\<rparr>"
    by blast
  have "GetLowKBit 2 0 \<noteq> GetLowKBit 2 2" by (simp add: GetLowKBit_eq_iff32)
  with t show ?thesis by (intro exI [of _ t]) simp
qed

text \<open>
  Claim C2. The claim: after a sequence of calls of \<^verbatim>\<open>Insert\<close> with distinct keys,
  \<^verbatim>\<open>Find\<close> succeeds for each of the keys, with the value inserted last. It holds while
  the global depth is at most 31 (\<open>inserts_not_lost_upto_31\<close>). On a table of capacity 1
  with \<^verbatim>\<open>int\<close> keys, after \<^verbatim>\<open>Insert(INT_MIN + 1, 10)\<close> and \<^verbatim>\<open>Insert(1, 11)\<close>, which both
  return, \<^verbatim>\<open>Find(INT_MIN + 1)\<close> finds nothing: the table has global depth 32, the mask of
  \<^verbatim>\<open>IndexOf\<close> is 0, and every key is looked up in the bucket of slot 0, which holds the
  key 1 only.
\<close>

theorem Insert_loses_key:
  "\<exists>t. table_after int_hash 1 [InsertOp (- 2147483647) (10::nat), InsertOp 1 11] = Some (Inr t) \<and>
     Find int_hash t (- 2147483647) = Inr None \<and> Find int_hash t 1 = Inr (Some 11)"
proof -
  from run_B obtain t where
    t: "table_after int_hash 1 [InsertOp (- 2147483647) (10::nat), InsertOp 1 11] = Some (Inr t)"
      "global_depth t = 32" "dir t \<noteq> []" "dir t ! 0 = 0" "0 < length (heap t)"
      "heap t ! 0 = \<lparr>size_b = 1, depth = 1, list_b = [(1, 11)]\<rparr>" by blast
  have "Find int_hash t k = Inr (Bucket_Find k (heap t ! 0))" for k
    using Find_at_32 [of t int_hash k] t(2-5) by simp
  with t(1,6) show ?thesis by (intro exI [of _ t]) (simp add: Bucket_Find_def)
qed

text \<open>
  Claim C6. The claim: for every key, every value and every table reached with a
  capacity of at least 1, the loop of \<^verbatim>\<open>Insert\<close> ends: after finitely many doublings and
  splits the item fits. It does, at a global depth of at most 31, when fewer stored keys
  than the capacity agree with the key on the low 31 bits of the hash
  (\<open>Insert_terminates_upto_31\<close>). On a table of capacity 1 with \<^verbatim>\<open>int\<close> keys that holds
  the key 0, the call \<^verbatim>\<open>Insert(INT_MIN, 20)\<close> does not return: the hashes of the two keys
  differ in bit 31 and above only, every mask that \<^verbatim>\<open>IndexOf\<close> computes in 32 bits has at
  most 31 bits, so that each round finds the key 0 in the bucket of slot 0, full, and
  splits it without moving the key. The model has no bound on the directory: the rounds
  go on for ever, where the code ends when \<^verbatim>\<open>resize\<close> can no longer allocate.
\<close>

theorem Insert_never_fits:
  "table_after int_hash 1 [InsertOp 0 (10::nat)] =
     Some (Inr \<lparr>global_depth = 0, bucket_size = 1, num_buckets = 1, dir = [0],
                heap = [\<lparr>size_b = 1, depth = 0, list_b = [(0, 10)]\<rparr>]\<rparr>)
   \<and> Insert int_hash (- 2147483648) (20::nat)
       \<lparr>global_depth = 0, bucket_size = 1, num_buckets = 1, dir = [0],
        heap = [\<lparr>size_b = 1, depth = 0, list_b = [(0, 10)]\<rparr>]\<rparr> = None"
proof -
  let ?t = "\<lparr>global_depth = 0, bucket_size = 1, num_buckets = 1, dir = [0],
        heap = [\<lparr>size_b = 1, depth = 0, list_b = [(0::32 word, 10::nat)]\<rparr>]\<rparr>"
  have r: "table_after int_hash 1 [InsertOp 0 (10::nat)] = Some (Inr ?t)"
    by (simp add: table_after_def new_table_def new_bucket_def Insert.simps Insert_body_def
        IndexOf_mod32 slot_bucket_def Bucket_Insert_def Bucket_IsFull_def)
  have "pinned int_hash (- 2147483648) ?t"
    by (simp add: pinned_def Bucket_IsFull_def int_hash_0 int_hash_min)
  from pinned_diverges [OF this, of 20] r show ?thesis by blast
qed

end
